theory Spec2Isabelle
  imports Main "HOL-Library.Multiset"
begin

section \<open>JavaScript strings and numbers\<close>

text \<open>
  A JavaScript string is a sequence of UTF-16 code units; a regular expression without the
  \<open>u\<close> flag works on code units. A code unit is modelled by its number. \<open>ascii\<close> turns an
  ASCII literal into such a string.
\<close>

type_synonym jsstring = "nat list"

definition ascii :: "string \<Rightarrow> jsstring" where
  "ascii s = map of_char s"

text \<open>\<open>String.prototype.slice(a, b)\<close> and \<open>slice(a)\<close> for indices \<open>0 \<le> a\<close>, \<open>0 \<le> b\<close>.\<close>

definition slice :: "jsstring \<Rightarrow> nat \<Rightarrow> nat \<Rightarrow> jsstring" where
  "slice s a b = take (b - a) (drop a s)"

definition sliceFrom :: "jsstring \<Rightarrow> nat \<Rightarrow> jsstring" where
  "sliceFrom s a = drop a s"

text \<open>The class \<open>\d\<close> of a regular expression: the ASCII digits \<open>0\<close> to \<open>9\<close>.\<close>

definition isDigit :: "nat \<Rightarrow> bool" where
  "isDigit c \<longleftrightarrow> 48 \<le> c \<and> c \<le> 57"

text \<open>The decimal digits of a natural number.\<close>

fun decimal :: "nat \<Rightarrow> jsstring" where
  "decimal n = (if n < 10 then [48 + n] else decimal (n div 10) @ [48 + n mod 10])"

declare decimal.simps [simp del]

subsection \<open>Numbers\<close>

text \<open>
  A JavaScript number is a double. The numbers of this program are nonnegative integers: a
  number is modelled by its value, a natural number. Every natural number below \<open>2 ^ 53\<close>
  is a double; a larger one is a double when it has 53 significant bits. \<open>toDouble n\<close> is
  the double nearest to \<open>n\<close>, ties to the even mantissa (for \<open>n\<close> below \<open>2 ^ 1024\<close>, where
  a double is finite). \<open>bitlen\<close> is the number of bits, \<open>roundDiv a b\<close> the integer nearest
  to \<open>a / b\<close>, ties to even.
\<close>

fun bitlen :: "nat \<Rightarrow> nat" where
  "bitlen n = (if n = 0 then 0 else Suc (bitlen (n div 2)))"

declare bitlen.simps [simp del]

definition roundDiv :: "nat \<Rightarrow> nat \<Rightarrow> nat" where
  "roundDiv a b =
     (let q = a div b; r = a mod b
      in if 2 * r < b then q
         else if b < 2 * r then q + 1
         else if even q then q else q + 1)"

definition toDouble :: "nat \<Rightarrow> nat" where
  "toDouble n =
     (if bitlen n \<le> 53 then n
      else roundDiv n (2 ^ (bitlen n - 53)) * 2 ^ (bitlen n - 53))"

text \<open>
  \<open>Math.floor(s / d)\<close> for a divisor \<open>0 < d < 2 ^ 53\<close>: the quotient is rounded to a double
  (53 significant bits, ties to even), then cut to an integer. A quotient below 1 is cut to
  0: it is \<open>1 - 1 / d\<close> at most, which is not rounded to 1. With \<open>q = s div d\<close> of \<open>b\<close> bits,
  the doubles around the quotient are the multiples of \<open>2 ^ (b - 53)\<close>.
\<close>

definition floorQuotient :: "nat \<Rightarrow> nat \<Rightarrow> nat" where
  "floorQuotient s d =
     (let q = s div d
      in if q = 0 then 0
         else if bitlen q \<le> 53
         then roundDiv (s * 2 ^ (53 - bitlen q)) d div 2 ^ (53 - bitlen q)
         else roundDiv s (d * 2 ^ (bitlen q - 53)) * 2 ^ (bitlen q - 53))"

text \<open>
  \<open>Number.prototype.toString\<close> on a positive integer double \<open>x\<close> (ECMAScript,
  Number::toString): the digits \<open>s\<close> (there are \<open>k\<close> of them) and the position \<open>n\<close> of the
  decimal point are such that \<open>s * 10 ^ (n - k)\<close> is a number whose double is \<open>x\<close>, with \<open>k\<close>
  as small as possible, and \<open>s\<close> as near to \<open>x\<close> as possible. \<open>pick x D k\<close> looks for such
  digits among the two \<open>k\<close>-digit neighbours of \<open>x\<close>, which has \<open>D\<close> decimal digits (the
  upper neighbour of \<open>9\<close> is \<open>10 ^ D\<close>, one digit at position \<open>D + 1\<close>); \<open>shortest\<close> tries
  \<open>k = 1, 2, ...\<close> up to all \<open>D\<close> digits. Up to the position 21 the digits are followed by
  zeros, from 22 on the number is printed with an exponent.
\<close>

definition pick :: "nat \<Rightarrow> nat \<Rightarrow> nat \<Rightarrow> (nat \<times> nat \<times> nat) option" where
  "pick x D k =
     (let j = D - k; lo = x div 10 ^ j; hi = lo + 1;
          okLo = (toDouble (lo * 10 ^ j) = x);
          okHi = (if hi < 10 ^ k then toDouble (hi * 10 ^ j) = x
                  else k = 1 \<and> toDouble (10 ^ D) = x);
          rLo = (D, k, lo);
          rHi = (if hi < 10 ^ k then (D, k, hi) else (D + 1, 1, 1));
          dLo = x - lo * 10 ^ j; dHi = hi * 10 ^ j - x
      in if okLo \<and> okHi
         then (if dLo < dHi then Some rLo
               else if dHi < dLo then Some rHi
               else if even lo then Some rLo else Some rHi)
         else if okLo then Some rLo
         else if okHi then Some rHi
         else None)"

function shortest :: "nat \<Rightarrow> nat \<Rightarrow> nat \<Rightarrow> nat \<times> nat \<times> nat" where
  "shortest x D k =
     (if D \<le> k then (D, D, x)
      else (case pick x D k of Some r \<Rightarrow> r | None \<Rightarrow> shortest x D (Suc k)))"
  by pat_completeness auto
termination
  by (relation "measure (\<lambda>(x, D, k). D - k)") simp_all

declare shortest.simps [simp del]

definition toString :: "nat \<Rightarrow> jsstring" where
  "toString x =
     (if x = 0 then ascii ''0''
      else (case shortest x (length (decimal x)) 1 of
              (n, k, s) \<Rightarrow>
                if n \<le> 21 then decimal s @ replicate (n - k) 48
                else if k = 1 then decimal s @ ascii ''e+'' @ decimal (n - 1)
                else hd (decimal s) # ascii ''.'' @ tl (decimal s) @ ascii ''e+''
                     @ decimal (n - 1)))"

subsection \<open>String methods\<close>

text \<open>\<open>String.prototype.padStart(targetLength, padString)\<close>.\<close>

definition padStart :: "jsstring \<Rightarrow> nat \<Rightarrow> jsstring \<Rightarrow> jsstring" where
  "padStart s targetLength padString =
     (if targetLength \<le> length s \<or> padString = [] then s
      else take (targetLength - length s)
             (concat (replicate (targetLength - length s) padString)) @ s)"

text \<open>The value of a string of decimal digits, to read a rendered number back.\<close>

definition decimalValue :: "jsstring \<Rightarrow> nat" where
  "decimalValue s = foldl (\<lambda>acc c. 10 * acc + (c - 48)) 0 s"

text \<open>
  The class \<open>\s\<close> of a regular expression, which is also what \<open>String.prototype.trim\<close>
  strips: the white space and line terminator code units of ECMAScript.
\<close>

definition isSpace :: "nat \<Rightarrow> bool" where
  "isSpace c \<longleftrightarrow>
     c = 9 \<or> c = 10 \<or> c = 11 \<or> c = 12 \<or> c = 13 \<or> c = 32 \<or> c = 160 \<or> c = 5760
     \<or> (8192 \<le> c \<and> c \<le> 8202) \<or> c = 8232 \<or> c = 8233 \<or> c = 8239 \<or> c = 8287
     \<or> c = 12288 \<or> c = 65279"

definition trim :: "jsstring \<Rightarrow> jsstring" where
  "trim s = rev (dropWhile isSpace (rev (dropWhile isSpace s)))"

text \<open>\<open>String.prototype.includes\<close>: the second string occurs in the first.\<close>

fun js_includes :: "jsstring \<Rightarrow> jsstring \<Rightarrow> bool" where
  "js_includes [] p = (p = [])"
| "js_includes (c # cs) p = (take (length p) (c # cs) = p \<or> js_includes cs p)"

section \<open>app.js: the page chrome\<close>

subsection \<open>formatTime (app.js and MeetingRoom.formatTime, the same body)\<close>

text \<open>
  \<open>seconds\<close> is the value of the number passed, a nonnegative integer double. The
  remainder \<open>%\<close> of two doubles is exact.
\<close>

definition formatTime :: "nat \<Rightarrow> jsstring" where
  "formatTime seconds =
     (let hours = floorQuotient seconds 3600;
          minutes = floorQuotient (seconds mod 3600) 60;
          secs = seconds mod 60
      in padStart (toString hours) 2 (ascii ''0'') @ ascii '':''
         @ padStart (toString minutes) 2 (ascii ''0'') @ ascii '':''
         @ padStart (toString secs) 2 (ascii ''0''))"

subsection \<open>The input handler of the meeting id field\<close>

text \<open>
  The handler reads \<open>e.target.value\<close> and writes the masked value back; the model maps the
  value read to the value written.
\<close>

definition meetingIdInput_input :: "jsstring \<Rightarrow> jsstring" where
  "meetingIdInput_input v =
     (let value = filter isDigit v;
          value = (if length value > 10 then slice value 0 10 else value)
      in if length value \<ge> 6
         then slice value 0 3 @ ascii ''-'' @ slice value 3 6 @ ascii ''-'' @ sliceFrom value 6
         else if length value \<ge> 3
         then slice value 0 3 @ ascii ''-'' @ sliceFrom value 3
         else value)"

subsection \<open>The click handler of the submit buttons\<close>

text \<open>
  A submit button, as far as its handler reads and writes it: \<open>markup\<close> is its
  \<open>innerHTML\<close>, \<open>disabled\<close> its \<open>disabled\<close> property. Beside the button the window keeps
  the time-outs that the handler has registered and that have not run yet, in the order of
  their registration: for each the time (milliseconds) at which it is due and the
  \<open>originalText\<close> that its callback has captured.
\<close>

record submit_button =
  markup :: jsstring
  disabled :: bool

record chrome =
  submitButton :: submit_button
  pending :: "(nat \<times> jsstring) list"

definition loadingHTML :: jsstring where
  \<open>loadingHTML = ascii ''<i class="fas fa-spinner fa-spin me-2"></i>Loading...''\<close>

text \<open>
  The listener, run at the time \<open>now\<close>: it saves the markup, shows the busy state and
  registers the time-out of 3000 ms.
\<close>

definition onClick :: "nat \<Rightarrow> chrome \<Rightarrow> chrome" where
  "onClick now c =
     (let originalText = markup (submitButton c)
      in c\<lparr>submitButton := \<lparr>markup = loadingHTML, disabled = True\<rparr>,
           pending := pending c @ [(now + 3000, originalText)]\<rparr>)"

text \<open>The callback of the time-out.\<close>

definition restore :: "jsstring \<Rightarrow> submit_button \<Rightarrow> submit_button" where
  "restore originalText b = b\<lparr>markup := originalText, disabled := False\<rparr>"


definition advance :: "nat \<Rightarrow> chrome \<Rightarrow> chrome" where
  "advance now c =
     c\<lparr>submitButton := foldl (\<lambda>b e. restore (snd e) b) (submitButton c)
                         (filter (\<lambda>e. fst e \<le> now) (pending c)),
       pending := filter (\<lambda>e. \<not> fst e \<le> now) (pending c)\<rparr>"

section \<open>meeting.js: rendering a chat message\<close>

text \<open>
  \<open>content.replace(/ab/g, rep)\<close> for a pattern of two literal code units and a replacement
  without \<open>$\<close>: the text is scanned from the left, a match is replaced and the scan goes on
  behind it. The pattern is the pair of its code units.
\<close>

fun replace2 :: "jsstring \<Rightarrow> nat \<times> nat \<Rightarrow> jsstring \<Rightarrow> jsstring" where
  "replace2 (x # y # s) (a, b) rep =
     (if x = a \<and> y = b then rep @ replace2 s (a, b) rep
      else x # replace2 (y # s) (a, b) rep)"
| "replace2 s p rep = s"

text \<open>
  The pattern \<open>(https?:\/\/[^\s]+)\<close> tried at the start of a text: \<open>url_scheme\<close> is the
  length of the \<open>https?:\/\/\<close> part, \<open>match_url\<close> gives the match and the text behind it.
  The class \<open>[^\s]+\<close> is greedy and needs one code unit at least.
\<close>

definition url_scheme :: "jsstring \<Rightarrow> nat option" where
  "url_scheme s =
     (if take 8 s = ascii ''https://'' then Some 8
      else if take 7 s = ascii ''http://'' then Some 7
      else None)"

definition match_url :: "jsstring \<Rightarrow> (jsstring \<times> jsstring) option" where
  "match_url s =
     (case url_scheme s of
        None \<Rightarrow> None
      | Some n \<Rightarrow>
          (let body = takeWhile (\<lambda>c. \<not> isSpace c) (drop n s)
           in if body = [] then None
              else Some (take n s @ body, dropWhile (\<lambda>c. \<not> isSpace c) (drop n s))))"

text \<open>The replacement \<open><a href="$1" target="_blank" class="text-primary">$1</a>\<close>.\<close>

definition anchor :: "jsstring \<Rightarrow> jsstring" where
  \<open>anchor m = ascii ''<a href="'' @ m @ ascii ''" target="_blank" class="text-primary">''
              @ m @ ascii ''</a>''\<close>

text \<open>The global replacement of the URL pattern: the scan resumes behind each match.\<close>

function linkify :: "jsstring \<Rightarrow> jsstring" where
  "linkify [] = []"
| "linkify (c # cs) =
     (case match_url (c # cs) of
        Some (m, rest) \<Rightarrow> anchor m @ linkify rest
      | None \<Rightarrow> c # linkify cs)"
  by pat_completeness auto
termination
proof (relation "measure length")
  show "wf (measure length)" by simp
next
  fix c cs
  show "(cs, c # cs) \<in> measure length" by simp
next
  fix c cs x m rest
  assume "match_url (c # cs) = Some x" and "(m, rest) = x"
  then have "match_url (c # cs) = Some (m, rest)" by simp
  then obtain n where n: "url_scheme (c # cs) = Some n"
    and rest: "rest = dropWhile (\<lambda>c. \<not> isSpace c) (drop n (c # cs))"
    by (auto simp: match_url_def Let_def split: option.splits if_splits)
  from n have "n = 8 \<or> n = 7" by (simp add: url_scheme_def split: if_splits)
  then have "0 < n" by auto
  have "length rest \<le> length (drop n (c # cs))"
    unfolding rest by (rule length_dropWhile_le)
  then have "length rest \<le> length (c # cs) - n" by simp
  moreover have "0 < length (c # cs)" by simp
  ultimately have "length rest < length (c # cs)" using \<open>0 < n\<close> by linarith
  then show "(rest, c # cs) \<in> measure length" by simp
qed

text \<open>
  \<open>formatMessageContent\<close>: the five emoticon passes in the order of the source, then the
  URL pass. The patterns are \<open>:)\<close> (58, 41), \<open>:(\<close> (58, 40), \<open>:D\<close> (58, 68), \<open>:|\<close> (58, 124)
  and \<open><3\<close> (60, 51); the replacements are the strings of the source file, read as UTF-8,
  in UTF-16 code units.
\<close>

definition formatMessageContent :: "jsstring \<Rightarrow> jsstring" where
  "formatMessageContent content =
     linkify
       (replace2
         (replace2
           (replace2
             (replace2
               (replace2 content (58, 41) [63743, 252, 242, 228])
               (58, 40) [63743, 252, 242, 251])
             (58, 68) [63743, 252, 242, 201])
           (58, 124) [63743, 252, 242, 234])
         (60, 51) [8218, 249, 167, 212, 8719, 232])"

text \<open>The same five passes as a table, to speak about their order.\<close>

definition emoji_passes :: "((nat \<times> nat) \<times> jsstring) list" where
  "emoji_passes =
     [((58, 41), [63743, 252, 242, 228]),
      ((58, 40), [63743, 252, 242, 251]),
      ((58, 68), [63743, 252, 242, 201]),
      ((58, 124), [63743, 252, 242, 234]),
      ((60, 51), [8218, 249, 167, 212, 8719, 232])]"

text \<open>
  The reading of the specification: one scan that replaces each occurrence of a pattern of
  the table by its glyph. It is compared with the passes of the source below.
\<close>

fun emojify :: "((nat \<times> nat) \<times> jsstring) list \<Rightarrow> jsstring \<Rightarrow> jsstring" where
  "emojify tab (x # y # s) =
     (case map_of tab (x, y) of
        Some g \<Rightarrow> g @ emojify tab s
      | None \<Rightarrow> x # emojify tab (y # s))"
| "emojify tab s = s"

text \<open>A text contains one of the five emoticon sequences.\<close>

definition hasEmoticon :: "jsstring \<Rightarrow> bool" where
  "hasEmoticon s = list_ex (\<lambda>e. js_includes s [fst (fst e), snd (fst e)]) emoji_passes"

text \<open>
  The code units of a text behind its last white space: what stands immediately before a
  text that is appended.
\<close>

definition lastRun :: "jsstring \<Rightarrow> jsstring" where
  "lastRun s = rev (takeWhile (\<lambda>c. \<not> isSpace c) (rev s))"

text \<open>
  Notions for the proofs: the code units that start and that end a pattern, and a table
  whose glyphs are not empty and hold no such code unit and no white space.
\<close>

definition isFirst :: "nat \<Rightarrow> bool" where
  "isFirst c \<longleftrightarrow> c = 58 \<or> c = 60"

definition isSecond :: "nat \<Rightarrow> bool" where
  "isSecond c \<longleftrightarrow> c = 41 \<or> c = 40 \<or> c = 68 \<or> c = 124 \<or> c = 51"

definition wf_entry :: "(nat \<times> nat) \<times> jsstring \<Rightarrow> bool" where
  "wf_entry e \<longleftrightarrow>
     isFirst (fst (fst e)) \<and> isSecond (snd (fst e)) \<and> snd e \<noteq> []
     \<and> (\<forall>c \<in> set (snd e). \<not> isFirst c \<and> \<not> isSecond c \<and> \<not> isSpace c)"

definition wf_table :: "((nat \<times> nat) \<times> jsstring) list \<Rightarrow> bool" where
  "wf_table tab \<longleftrightarrow> (\<forall>e \<in> set tab. wf_entry e)"

text \<open>No two neighbours in a text are a pattern of the table.\<close>

fun pattern_free :: "((nat \<times> nat) \<times> jsstring) list \<Rightarrow> jsstring \<Rightarrow> bool" where
  "pattern_free tab (x # y # s) = (map_of tab (x, y) = None \<and> pattern_free tab (y # s))"
| "pattern_free tab s = True"

section \<open>meeting.js: the meeting room\<close>

subsection \<open>The controller, the media streams and the page\<close>

text \<open>
  A method that dereferences \<open>null\<close> (an element the page does not have, a socket that was
  not opened) throws; the result is then \<open>Inl TypeError\<close>, and what the method had changed
  before is not kept.
\<close>

datatype error = TypeError

text \<open>The events the controller emits on its socket, with their payloads.\<close>

datatype event =
    join_meeting jsstring
  | send_message jsstring jsstring
  | send_reaction jsstring jsstring
  | toggle_camera jsstring bool
  | toggle_microphone jsstring bool
  | leave_meeting jsstring

text \<open>
  A \<open>MediaStreamTrack\<close>: its kind, its \<open>enabled\<close> flag, whether it has ended, and how
  often \<open>stop()\<close> was called on it. A \<open>MediaStream\<close> is the list that \<open>getTracks()\<close>
  returns.
\<close>

datatype track_kind = video | audio

record track =
  kind :: track_kind
  enabled :: bool
  ended :: bool
  stopCalls :: nat

type_synonym media_stream = "track list"

definition getVideoTracks :: "media_stream \<Rightarrow> track list" where
  "getVideoTracks s = filter (\<lambda>t. kind t = video) s"

definition getAudioTracks :: "media_stream \<Rightarrow> track list" where
  "getAudioTracks s = filter (\<lambda>t. kind t = audio) s"

text \<open>
  The local stream is assigned in \<open>initCamera\<close> only, where it is what
  \<open>getUserMedia({video: true, audio: true})\<close> resolved with: a stream of one video and one
  audio track. \<open>userMedia\<close> holds of the streams with one track at most of each kind.
\<close>

definition userMedia :: "media_stream \<Rightarrow> bool" where
  "userMedia s \<longleftrightarrow> length (getVideoTracks s) \<le> 1 \<and> length (getAudioTracks s) \<le> 1"

definition stop :: "track \<Rightarrow> track" where
  "stop t = t\<lparr>ended := True, stopCalls := stopCalls t + 1\<rparr>"

text \<open>
  \<open>s.getVideoTracks()[0].enabled = v\<close> writes to the track object, which the stream holds:
  the first track of that kind in the stream is updated.
\<close>

fun setFirstEnabled :: "track_kind \<Rightarrow> bool \<Rightarrow> media_stream \<Rightarrow> media_stream" where
  "setFirstEnabled k v [] = []"
| "setFirstEnabled k v (t # ts) =
     (if kind t = k then t\<lparr>enabled := v\<rparr> # ts else t # setFirstEnabled k v ts)"

text \<open>A participant of a roster push.\<close>

record participant =
  pid :: nat
  pname :: jsstring
  microphone :: bool
  camera :: bool

text \<open>
  The page: the elements the controller looks up by id (\<open>None\<close> when the page has no such
  element), the alerts appended to the body, and the timers of the window. An element is
  its class names, its id and its markup; a timer is registered under a positive handle.
\<close>

record element =
  className :: "string list"
  elementId :: jsstring
  innerHTML :: jsstring

record button =
  classList :: "string list"
  buttonHTML :: jsstring

datatype callback = update_timer | close_notification nat

datatype timer = Interval callback nat | Timeout callback nat

record page =
  messageInput :: "jsstring option"
  participantsList :: "element list option"
  participantVideos :: "element list option"
  participantCount :: "jsstring option"
  timerText :: "jsstring option"
  cameraBtn :: "button option"
  micBtn :: "button option"
  bodyAlerts :: "element list"
  timers :: "(nat \<times> timer) list"
  lastHandle :: nat

text \<open>The fields of \<open>MeetingRoom\<close>; \<open>config\<close> is spread into its three fields.\<close>

record meeting_room =
  meetingId :: jsstring
  userId :: nat
  userName :: jsstring
  socket :: "event list option"
  startTime :: nat
  timerInterval :: "nat option"
  isCameraOn :: bool
  isMicrophoneOn :: bool
  isChatVisible :: bool
  localStream :: "media_stream option"
  screenStream :: "media_stream option"
  isScreenSharing :: bool

subsection \<open>Timers of the window\<close>

definition setInterval :: "callback \<Rightarrow> nat \<Rightarrow> page \<Rightarrow> nat \<times> page" where
  "setInterval cb delay p =
     (let h = Suc (lastHandle p)
      in (h, p\<lparr>timers := timers p @ [(h, Interval cb delay)], lastHandle := h\<rparr>))"

definition setTimeout :: "callback \<Rightarrow> nat \<Rightarrow> page \<Rightarrow> nat \<times> page" where
  "setTimeout cb delay p =
     (let h = Suc (lastHandle p)
      in (h, p\<lparr>timers := timers p @ [(h, Timeout cb delay)], lastHandle := h\<rparr>))"

definition clearInterval :: "nat \<Rightarrow> page \<Rightarrow> page" where
  "clearInterval h p = p\<lparr>timers := filter (\<lambda>e. fst e \<noteq> h) (timers p)\<rparr>"

subsection \<open>showNotification and updateControlButtons\<close>

text \<open>
  The alert that \<open>showNotification\<close> appends to the body (its inline style is left out) and
  the timeout that closes it after 3000 ms.
\<close>

definition showNotification :: "jsstring \<Rightarrow> string \<Rightarrow> page \<Rightarrow> page" where
  \<open>showNotification message type p =
     (let notification =
            \<lparr>className = [''alert'', ''alert-'' @ type, ''alert-dismissible'', ''fade'', ''show'',
                          ''position-fixed''],
             elementId = [],
             innerHTML = message
               @ ascii ''<button type="button" class="btn-close" data-bs-dismiss="alert"></button>''\<rparr>;
          p1 = p\<lparr>bodyAlerts := bodyAlerts p @ [notification]\<rparr>
      in snd (setTimeout (close_notification (length (bodyAlerts p))) 3000 p1))\<close>

definition classList_remove :: "string \<Rightarrow> string list \<Rightarrow> string list" where
  "classList_remove c cl = removeAll c cl"

definition classList_add :: "string \<Rightarrow> string list \<Rightarrow> string list" where
  "classList_add c cl = (if c \<in> set cl then cl else cl @ [c])"

definition updateControlButtons :: "meeting_room \<Rightarrow> page \<Rightarrow> page" where
  \<open>updateControlButtons this p =
     p\<lparr>cameraBtn :=
         map_option
           (\<lambda>b. if isCameraOn this
                then \<lparr>classList = classList_add ''active'' (classList_remove ''muted'' (classList b)),
                      buttonHTML = ascii ''<i class="fas fa-video"></i>''\<rparr>
                else \<lparr>classList = classList_add ''muted'' (classList_remove ''active'' (classList b)),
                      buttonHTML = ascii ''<i class="fas fa-video-slash"></i>''\<rparr>)
           (cameraBtn p),
       micBtn :=
         map_option
           (\<lambda>b. if isMicrophoneOn this
                then \<lparr>classList = classList_add ''active'' (classList_remove ''muted'' (classList b)),
                      buttonHTML = ascii ''<i class="fas fa-microphone"></i>''\<rparr>
                else \<lparr>classList = classList_add ''muted'' (classList_remove ''active'' (classList b)),
                      buttonHTML = ascii ''<i class="fas fa-microphone-slash"></i>''\<rparr>)
           (micBtn p)\<rparr>\<close>

subsection \<open>startTimer and the tick of the elapsed-time display\<close>

definition startTimer :: "meeting_room \<Rightarrow> page \<Rightarrow> meeting_room \<times> page" where
  "startTimer this p =
     (case setInterval update_timer 1000 p of
        (h, p1) \<Rightarrow> (this\<lparr>timerInterval := Some h\<rparr>, p1))"

text \<open>
  The callback of the interval, run at the time \<open>now\<close> (milliseconds, not before
  \<open>startTime\<close>), and the window running it for the handle \<open>h\<close>: an interval that is not
  registered any more does not run.
\<close>

definition timerCallback :: "meeting_room \<Rightarrow> nat \<Rightarrow> page \<Rightarrow> error + page" where
  "timerCallback this now p =
     (let elapsed = floorQuotient (now - startTime this) 1000
      in case timerText p of
           None \<Rightarrow> Inl TypeError
         | Some _ \<Rightarrow> Inr (p\<lparr>timerText := Some (formatTime elapsed)\<rparr>))"

definition timerTick :: "nat \<Rightarrow> meeting_room \<Rightarrow> nat \<Rightarrow> page \<Rightarrow> error + page" where
  "timerTick h this now p =
     (if (h, Interval update_timer 1000) \<in> set (timers p) then timerCallback this now p
      else Inr p)"

subsection \<open>updateParticipantsList\<close>

text \<open>The markup of the template literals, without their layout white space.\<close>

definition participantDiv :: "participant \<Rightarrow> element" where
  \<open>participantDiv participant =
     \<lparr>className = [''participant-item'', ''fade-in''],
      elementId = ascii ''participant-'' @ toString (pid participant),
      innerHTML =
        ascii ''<div class="participant-avatar"><i class="fas fa-user"></i></div>''
        @ ascii ''<div class="participant-info"><span class="participant-name">''
        @ pname participant
        @ ascii ''</span><div class="participant-status"><i class="fas fa-microphone ''
        @ (if microphone participant then ascii ''text-success'' else ascii ''text-danger'')
        @ ascii ''"></i><i class="fas fa-video ''
        @ (if camera participant then ascii ''text-success'' else ascii ''text-danger'')
        @ ascii ''"></i></div></div>''\<rparr>\<close>

definition videoDiv :: "participant \<Rightarrow> element" where
  \<open>videoDiv participant =
     \<lparr>className = [''participant-video'', ''fade-in''],
      elementId = ascii ''video-'' @ toString (pid participant),
      innerHTML =
        ascii ''<div class="video-placeholder"><i class="fas fa-user fa-2x text-muted"></i></div>''
        @ ascii ''<div class="video-overlay"><span class="participant-name">''
        @ pname participant
        @ ascii ''</span></div>''\<rparr>\<close>

definition addParticipantToList :: "participant \<Rightarrow> page \<Rightarrow> error + page" where
  "addParticipantToList participant p =
     (case participantsList p of
        None \<Rightarrow> Inl TypeError
      | Some l \<Rightarrow> Inr (p\<lparr>participantsList := Some (l @ [participantDiv participant])\<rparr>))"

definition addParticipantVideo :: "participant \<Rightarrow> page \<Rightarrow> error + page" where
  "addParticipantVideo participant p =
     (case participantVideos p of
        None \<Rightarrow> Inl TypeError
      | Some l \<Rightarrow> Inr (p\<lparr>participantVideos := Some (l @ [videoDiv participant])\<rparr>))"

text \<open>The \<open>forEach\<close> over the pushed list; an exception ends it.\<close>

fun addOthers :: "meeting_room \<Rightarrow> participant list \<Rightarrow> page \<Rightarrow> error + page" where
  "addOthers this [] p = Inr p"
| "addOthers this (participant # rest) p =
     (if pid participant \<noteq> userId this
      then (case addParticipantToList participant p of
              Inl e \<Rightarrow> Inl e
            | Inr p1 \<Rightarrow>
                (case addParticipantVideo participant p1 of
                   Inl e \<Rightarrow> Inl e
                 | Inr p2 \<Rightarrow> addOthers this rest p2))
      else addOthers this rest p)"

text \<open>
  \<open>querySelector('.participant-item')\<close> on the list: its first element of that class (the
  children of the list are the items; their markup holds no element of the class).
\<close>

definition querySelector_participant_item :: "element list \<Rightarrow> element option" where
  "querySelector_participant_item l = find (\<lambda>e. ''participant-item'' \<in> set (className e)) l"

definition updateParticipantsList ::
  "meeting_room \<Rightarrow> participant list \<Rightarrow> page \<Rightarrow> error + page" where
  "updateParticipantsList this participants p =
     (case participantsList p of
        None \<Rightarrow> Inl TypeError
      | Some l \<Rightarrow>
          (let selfParticipant = querySelector_participant_item l;
               p1 = p\<lparr>participantsList :=
                        Some (case selfParticipant of None \<Rightarrow> [] | Some e \<Rightarrow> [e])\<rparr>
           in case addOthers this participants p1 of
                Inl e \<Rightarrow> Inl e
              | Inr p2 \<Rightarrow>
                  (case participantCount p2 of
                     None \<Rightarrow> Inl TypeError
                   | Some _ \<Rightarrow>
                       Inr (p2\<lparr>participantCount := Some (toString (length participants))\<rparr>))))"

subsection \<open>sendMessage\<close>

definition sendMessage :: "meeting_room \<Rightarrow> page \<Rightarrow> error + (meeting_room \<times> page)" where
  "sendMessage this p =
     (case messageInput p of
        None \<Rightarrow> Inl TypeError
      | Some v \<Rightarrow>
          (let message = trim v
           in if message = [] then Inr (this, p)
              else (case socket this of
                      None \<Rightarrow> Inl TypeError
                    | Some out \<Rightarrow>
                        Inr (this\<lparr>socket := Some (out @ [send_message (meetingId this) message])\<rparr>,
                             p\<lparr>messageInput := Some []\<rparr>))))"

subsection \<open>toggleCamera and toggleMicrophone\<close>

definition toggleCamera :: "meeting_room \<Rightarrow> page \<Rightarrow> error + (meeting_room \<times> page)" where
  "toggleCamera this p =
     (case localStream this of
        None \<Rightarrow> Inr (this, showNotification (ascii ''Camera not available'') ''error'' p)
      | Some s \<Rightarrow>
          (let cam = \<not> isCameraOn this;
               s1 = (case getVideoTracks s of
                       [] \<Rightarrow> s
                     | videoTrack # _ \<Rightarrow> setFirstEnabled video cam s);
               this1 = this\<lparr>isCameraOn := cam, localStream := Some s1\<rparr>;
               p1 = updateControlButtons this1 p
           in case socket this1 of
                None \<Rightarrow> Inl TypeError
              | Some out \<Rightarrow>
                  Inr (this1\<lparr>socket := Some (out @ [toggle_camera (meetingId this1) cam])\<rparr>,
                       showNotification
                         (ascii ''Camera '' @ (if cam then ascii ''enabled'' else ascii ''disabled''))
                         ''info'' p1)))"

definition toggleMicrophone :: "meeting_room \<Rightarrow> page \<Rightarrow> error + (meeting_room \<times> page)" where
  "toggleMicrophone this p =
     (case localStream this of
        None \<Rightarrow> Inr (this, showNotification (ascii ''Microphone not available'') ''error'' p)
      | Some s \<Rightarrow>
          (let mic = \<not> isMicrophoneOn this;
               s1 = (case getAudioTracks s of
                       [] \<Rightarrow> s
                     | audioTrack # _ \<Rightarrow> setFirstEnabled audio mic s);
               this1 = this\<lparr>isMicrophoneOn := mic, localStream := Some s1\<rparr>;
               p1 = updateControlButtons this1 p
           in case socket this1 of
                None \<Rightarrow> Inl TypeError
              | Some out \<Rightarrow>
                  Inr (this1\<lparr>socket := Some (out @ [toggle_microphone (meetingId this1) mic])\<rparr>,
                       showNotification
                         (ascii ''Microphone ''
                          @ (if mic then ascii ''enabled'' else ascii ''disabled''))
                         ''info'' p1)))"

subsection \<open>leaveMeeting\<close>

definition leaveMeeting :: "meeting_room \<Rightarrow> page \<Rightarrow> meeting_room \<times> page" where
  "leaveMeeting this p =
     (let this1 = (case socket this of
                     None \<Rightarrow> this
                   | Some out \<Rightarrow> this\<lparr>socket := Some (out @ [leave_meeting (meetingId this)])\<rparr>);
          p1 = (case timerInterval this1 of
                  None \<Rightarrow> p
                | Some h \<Rightarrow> if h \<noteq> 0 then clearInterval h p else p);
          this2 = (case localStream this1 of
                     None \<Rightarrow> this1
                   | Some s \<Rightarrow> this1\<lparr>localStream := Some (map stop s)\<rparr>);
          this3 = (case screenStream this2 of
                     None \<Rightarrow> this2
                   | Some s \<Rightarrow> this2\<lparr>screenStream := Some (map stop s)\<rparr>)
      in (this3, p1))"

subsection \<open>A room and a page to evaluate the functions on\<close>

text \<open>
  A controller as the constructor leaves it once the camera and the microphone are granted
  (one video and one audio track), before \<open>startTimer\<close>; and a page with the elements the
  controller looks up, whose participant list holds the item of the local user.
\<close>

definition exampleRoom :: meeting_room where
  "exampleRoom =
     \<lparr>meetingId = ascii ''123-456-7890'', userId = 1, userName = ascii ''Me'',
      socket = Some [], startTime = 0, timerInterval = None,
      isCameraOn = True, isMicrophoneOn = True, isChatVisible = True,
      localStream = Some [\<lparr>kind = video, enabled = True, ended = False, stopCalls = 0\<rparr>,
                          \<lparr>kind = audio, enabled = True, ended = False, stopCalls = 0\<rparr>],
      screenStream = None, isScreenSharing = False\<rparr>"

definition selfItem :: element where
  "selfItem = \<lparr>className = [''participant-item''], elementId = [], innerHTML = ascii ''Me (You)''\<rparr>"

definition examplePage :: page where
  "examplePage =
     \<lparr>messageInput = Some [], participantsList = Some [selfItem], participantVideos = Some [],
      participantCount = Some (ascii ''1''), timerText = Some (ascii ''00:00:00''),
      cameraBtn = Some \<lparr>classList = [''control-btn'', ''active''], buttonHTML = []\<rparr>,
      micBtn = Some \<lparr>classList = [''control-btn'', ''active''], buttonHTML = []\<rparr>,
      bodyAlerts = [], timers = [], lastHandle = 0\<rparr>"

definition me :: participant where
  "me = \<lparr>pid = 1, pname = ascii ''Me'', microphone = True, camera = True\<rparr>"

definition alice :: participant where
  "alice = \<lparr>pid = 2, pname = ascii ''Alice'', microphone = True, camera = False\<rparr>"

section \<open>Properties of the page chrome\<close>

lemma ascii_Nil [simp]: "ascii [] = []"
  by (simp add: ascii_def)

lemma ascii_Cons [simp]: "ascii (c # cs) = of_char c # ascii cs"
  by (simp add: ascii_def)

lemma decimal_small: "n < 10 \<Longrightarrow> decimal n = [48 + n]"
  by (simp add: decimal.simps)

lemma decimal_two: "10 \<le> n \<Longrightarrow> n < 100 \<Longrightarrow> decimal n = [48 + n div 10, 48 + n mod 10]"
  by (subst decimal.simps) (simp add: decimal_small)

lemma pad2_below_100:
  "n < 100 \<Longrightarrow> padStart (decimal n) 2 [48] = [48 + n div 10, 48 + n mod 10]"
proof (cases "n < 10")
  case True
  then show ?thesis by (simp add: padStart_def decimal_small)
next
  case False
  assume "n < 100"
  with False show ?thesis by (simp add: padStart_def decimal_two)
qed

lemma decimal_digits: "\<forall>c \<in> set (decimal n). isDigit c"
proof (induction n rule: decimal.induct)
  case (1 n)
  show ?case
  proof (cases "n < 10")
    case True
    then show ?thesis by (simp add: decimal_small isDigit_def)
  next
    case False
    have "n mod 10 < 10" by simp
    then have "isDigit (48 + n mod 10)" unfolding isDigit_def by linarith
    with False 1 show ?thesis by (subst decimal.simps) auto
  qed
qed

lemma decimalValue_snoc: "decimalValue (s @ [c]) = 10 * decimalValue s + (c - 48)"
  by (simp add: decimalValue_def)

lemma decimalValue_decimal: "decimalValue (decimal n) = n"
proof (induction n rule: decimal.induct)
  case (1 n)
  show ?case
  proof (cases "n < 10")
    case True
    then show ?thesis by (simp add: decimal_small decimalValue_def)
  next
    case False
    with 1 have "decimalValue (decimal (n div 10)) = n div 10" by simp
    with False show ?thesis
      by (subst decimal.simps) (simp add: decimalValue_snoc)
  qed
qed

lemma decimal_length: "1 \<le> length (decimal n)"
  by (subst decimal.simps) simp

lemma decimal_length2: "10 \<le> n \<Longrightarrow> 2 \<le> length (decimal n)"
  using decimal_length [of "n div 10"] by (subst decimal.simps) simp

lemma padStart_hours:
  "padStart (decimal n) 2 [48] = (if n < 10 then 48 # decimal n else decimal n)"
proof (cases "n < 10")
  case True
  then show ?thesis by (simp add: padStart_def decimal_small)
next
  case False
  then have "2 \<le> length (decimal n)" by (simp add: decimal_length2)
  with False show ?thesis by (simp add: padStart_def)
qed

lemma padStart_hours_length: "2 \<le> length (padStart (decimal n) 2 [48])"
  by (simp add: padStart_hours decimal_small decimal_length2)

lemma padStart_hours_digits: "list_all isDigit (padStart (decimal n) 2 [48])"
  using decimal_digits [of n] by (simp add: padStart_hours list_all_iff isDigit_def)

lemma padStart_hours_value: "decimalValue (padStart (decimal n) 2 [48]) = n"
  by (simp add: padStart_hours decimalValue_def decimalValue_decimal [unfolded decimalValue_def])

lemma minutes_below_60: "(s mod 3600) div 60 < (60::nat)"
  by (simp add: less_mult_imp_div_less)

lemma bitlen_le_iff: "bitlen n \<le> m \<longleftrightarrow> n < 2 ^ m"
proof (induction m arbitrary: n)
  case 0
  show ?case by (subst bitlen.simps) simp
next
  case (Suc m)
  show ?case
  proof (cases "n = 0")
    case True
    then show ?thesis by (subst bitlen.simps) simp
  next
    case False
    then have "bitlen n = Suc (bitlen (n div 2))" by (subst bitlen.simps) simp
    then have "bitlen n \<le> Suc m \<longleftrightarrow> n div 2 < 2 ^ m" by (simp add: Suc.IH)
    also have "\<dots> \<longleftrightarrow> n < 2 ^ Suc m" by (simp add: div_less_iff_less_mult mult.commute)
    finally show ?thesis .
  qed
qed

lemma bitlen_lower: "0 < n \<Longrightarrow> 2 ^ (bitlen n - 1) \<le> n"
proof -
  assume "0 < n"
  then have "0 < bitlen n" by (subst bitlen.simps) simp
  then have "\<not> bitlen n \<le> bitlen n - 1" by simp
  then show ?thesis by (simp add: bitlen_le_iff)
qed

lemma bitlen_eqI: "2 ^ m \<le> n \<Longrightarrow> n < 2 ^ Suc m \<Longrightarrow> bitlen n = Suc m"
proof -
  assume a: "2 ^ m \<le> n" and b: "n < 2 ^ Suc m"
  from b have "bitlen n \<le> Suc m" by (simp add: bitlen_le_iff)
  moreover from a have "\<not> bitlen n \<le> m" by (simp add: bitlen_le_iff)
  ultimately show ?thesis by simp
qed

lemma roundDiv_lower: "a div b \<le> roundDiv a b"
  by (simp add: roundDiv_def Let_def)

lemma roundDiv_upper: "0 < b \<Longrightarrow> roundDiv a b \<le> (2 * a + b) div (2 * b)"
proof -
  assume b: "0 < b"
  let ?q = "a div b" and ?r = "a mod b"
  have a: "a = ?q * b + ?r" by simp
  have low: "?q \<le> (2 * a + b) div (2 * b)"
  proof -
    have "?q = (2 * a) div (2 * b)" by simp
    also have "\<dots> \<le> (2 * a + b) div (2 * b)" by (rule div_le_mono) simp
    finally show ?thesis .
  qed
  have up: "?q + 1 \<le> (2 * a + b) div (2 * b)" if "b \<le> 2 * ?r"
  proof -
    have "(?q + 1) * (2 * b) = 2 * (?q * b) + 2 * b" by (simp add: algebra_simps)
    also have "\<dots> \<le> 2 * (?q * b) + 2 * ?r + b" using that by simp
    also have "\<dots> = 2 * a + b" using a by (metis distrib_left_numeral)
    finally have "(?q + 1) * (2 * b) \<le> 2 * a + b" .
    then have "(?q + 1) * (2 * b) div (2 * b) \<le> (2 * a + b) div (2 * b)" by (rule div_le_mono)
    with b show ?thesis by simp
  qed
  show ?thesis
    unfolding roundDiv_def Let_def using low up by auto
qed

text \<open>Below \<open>2 ^ 53\<close> every natural number is a double; above, a double is \<open>2 ^ 53\<close> at least.\<close>

lemma toDouble_safe: "n < 2 ^ 53 \<Longrightarrow> toDouble n = n"
  by (simp add: toDouble_def bitlen_le_iff)

lemma toDouble_big: "\<not> n < 2 ^ 53 \<Longrightarrow> 2 ^ 53 \<le> toDouble n"
proof -
  assume big: "\<not> n < 2 ^ 53"
  then have b: "\<not> bitlen n \<le> 53" by (simp add: bitlen_le_iff)
  let ?u = "2 ^ (bitlen n - 53) :: nat"
  from big have "0 < n" by (cases "n = 0") simp_all
  then have "2 ^ (bitlen n - 1) \<le> n" by (rule bitlen_lower)
  moreover have "bitlen n - 1 = 52 + (bitlen n - 53)" using b by simp
  then have "(2::nat) ^ (bitlen n - 1) = 2 ^ 52 * ?u" by (simp only: power_add)
  ultimately have "2 ^ 52 * ?u \<le> n" by simp
  then have "2 ^ 52 * ?u div ?u \<le> n div ?u" by (rule div_le_mono)
  then have "2 ^ 52 \<le> n div ?u" by simp
  also have "\<dots> \<le> roundDiv n ?u" by (rule roundDiv_lower)
  finally have r: "2 ^ 52 \<le> roundDiv n ?u" .
  from b have "2 ^ 1 \<le> ?u" by (intro power_increasing) simp_all
  then have u: "2 \<le> ?u" by simp
  from r u have "2 ^ 52 * 2 \<le> roundDiv n ?u * ?u" by (rule mult_le_mono)
  with b show ?thesis by (simp add: toDouble_def)
qed

lemma toDouble_eq_safe: "toDouble v = x \<Longrightarrow> x < 2 ^ 53 \<Longrightarrow> v = x"
  using toDouble_safe [of v] toDouble_big [of v] by (cases "v < 2 ^ 53") auto

text \<open>
  Where the quotient has at most 53 bits and the divisor is smaller than the number of
  steps between two integers, the rounded quotient does not reach the next integer.
\<close>

lemma floorQuotient_exact:
  assumes d: "0 < d" and q: "0 < s div d" and b: "bitlen (s div d) \<le> 53"
    and small: "d < 2 ^ (54 - bitlen (s div d))"
  shows "floorQuotient s d = s div d"
proof -
  let ?q = "s div d"
  let ?k = "53 - bitlen ?q"
  let ?P = "2 ^ ?k :: nat"
  have P: "0 < ?P" by simp
  from b have "54 - bitlen ?q = Suc ?k" by simp
  with small have d2: "d < 2 * ?P" by simp
  have fq: "floorQuotient s d = roundDiv (s * ?P) d div ?P"
    using q b by (simp add: floorQuotient_def Let_def)
  have lower: "?q \<le> roundDiv (s * ?P) d div ?P"
  proof -
    have "?q * d \<le> s" by simp
    then have "?q * d * ?P \<le> s * ?P" by (rule mult_le_mono1)
    then have "?q * ?P * d \<le> s * ?P" by (simp add: mult.assoc mult.commute)
    then have "?q * ?P * d div d \<le> s * ?P div d" by (rule div_le_mono)
    with d have "?q * ?P \<le> s * ?P div d" by simp
    also have "\<dots> \<le> roundDiv (s * ?P) d" by (rule roundDiv_lower)
    finally have "?q * ?P div ?P \<le> roundDiv (s * ?P) d div ?P" by (rule div_le_mono)
    then show ?thesis by simp
  qed
  have upper: "roundDiv (s * ?P) d div ?P \<le> ?q"
  proof -
    have "roundDiv (s * ?P) d \<le> (2 * (s * ?P) + d) div (2 * d)"
      using d by (rule roundDiv_upper)
    then have "roundDiv (s * ?P) d div ?P \<le> (2 * (s * ?P) + d) div (2 * d) div ?P"
      by (rule div_le_mono)
    also have "\<dots> = (2 * (s * ?P) + d) div (2 * d * ?P)"
      by (simp add: div_mult2_eq)
    finally have le: "roundDiv (s * ?P) d div ?P \<le> (2 * (s * ?P) + d) div (2 * d * ?P)" .
    have "s < (?q + 1) * d"
      using d by (metis Suc_eq_plus1 dividend_less_div_times mult.commute mult_Suc)
    then have "s + 1 \<le> (?q + 1) * d" by simp
    then have "(s + 1) * (2 * ?P) \<le> (?q + 1) * d * (2 * ?P)" by (rule mult_le_mono1)
    moreover have "2 * (s * ?P) + d < (s + 1) * (2 * ?P)"
      using d2 by (simp add: algebra_simps)
    ultimately have "2 * (s * ?P) + d < (?q + 1) * d * (2 * ?P)" by simp
    then have "2 * (s * ?P) + d < (2 * d * ?P) * Suc ?q" by (simp add: algebra_simps)
    then have "(2 * (s * ?P) + d) div (2 * d * ?P) < Suc ?q"
      using d P by (simp add: div_less_iff_less_mult mult.commute)
    with le show ?thesis by simp
  qed
  from fq lower upper show ?thesis by simp
qed

lemma floorQuotient_3600: "s < 2 ^ 53 \<Longrightarrow> floorQuotient s 3600 = s div 3600"
proof (cases "s div 3600 = 0")
  case True
  then show ?thesis by (simp add: floorQuotient_def)
next
  case False
  assume s: "s < 2 ^ 53"
  then have "s div 3600 < 2 ^ 42" by (simp add: div_less_iff_less_mult)
  then have b: "bitlen (s div 3600) \<le> 42" by (simp add: bitlen_le_iff)
  then have "(2::nat) ^ 12 \<le> 2 ^ (54 - bitlen (s div 3600))"
    by (intro power_increasing) simp_all
  then have "3600 < (2::nat) ^ (54 - bitlen (s div 3600))" by simp
  with False b show ?thesis by (intro floorQuotient_exact) simp_all
qed

lemma floorQuotient_60: "r < 3600 \<Longrightarrow> floorQuotient r 60 = r div 60"
proof (cases "r div 60 = 0")
  case True
  then show ?thesis by (simp add: floorQuotient_def)
next
  case False
  assume r: "r < 3600"
  then have "r div 60 < 2 ^ 6" by (simp add: div_less_iff_less_mult)
  then have b: "bitlen (r div 60) \<le> 6" by (simp add: bitlen_le_iff)
  then have "(2::nat) ^ 6 \<le> 2 ^ (54 - bitlen (r div 60))"
    by (intro power_increasing) simp_all
  then have "60 < (2::nat) ^ (54 - bitlen (r div 60))" by simp
  with False b show ?thesis by (intro floorQuotient_exact) simp_all
qed

lemma decimal_times_10: "0 < s \<Longrightarrow> decimal (s * 10) = decimal s @ [48]"
  by (subst decimal.simps) simp

lemma decimal_times_power: "0 < s \<Longrightarrow> decimal (s * 10 ^ j) = decimal s @ replicate j 48"
proof (induction j)
  case 0
  then show ?case by simp
next
  case (Suc j)
  then have "decimal (s * 10 ^ j * 10) = (decimal s @ replicate j 48) @ [48]"
    by (simp add: decimal_times_10)
  moreover have "s * 10 ^ j * 10 = s * 10 ^ Suc j" by simp
  moreover have "replicate j 48 @ [48::nat] = replicate (Suc j) 48"
    by (simp add: replicate_append_same)
  ultimately show ?case by (simp only: append_assoc)
qed

lemma length_decimal: "0 < m \<Longrightarrow> x < 10 ^ m \<Longrightarrow> length (decimal x) \<le> m"
proof (induction m arbitrary: x)
  case 0
  then show ?case by simp
next
  case (Suc m)
  show ?case
  proof (cases "x < 10")
    case True
    then show ?thesis by (subst decimal.simps) simp
  next
    case False
    with Suc.prems have m: "0 < m" by (cases m) simp_all
    from Suc.prems have "x div 10 < 10 ^ m" by (simp add: div_less_iff_less_mult mult.commute)
    with m have "length (decimal (x div 10)) \<le> m" by (rule Suc.IH)
    with False show ?thesis by (subst decimal.simps) simp
  qed
qed

lemma pick_Some:
  assumes "pick x D k = Some (n, k', s)" and "x < 2 ^ 53" and "k \<le> D"
  shows "s * 10 ^ (n - k') = x \<and> k' \<le> n \<and> n \<le> D + 1"
proof -
  let ?j = "D - k"
  let ?lo = "x div 10 ^ ?j"
  let ?hi = "?lo + 1"
  let ?okLo = "toDouble (?lo * 10 ^ ?j) = x"
  let ?okHi = "if ?hi < 10 ^ k then toDouble (?hi * 10 ^ ?j) = x else k = 1 \<and> toDouble (10 ^ D) = x"
  let ?rHi = "if ?hi < 10 ^ k then (D, k, ?hi) else (D + 1, 1, 1)"
  from assms(1) have "(?okLo \<and> (n, k', s) = (D, k, ?lo)) \<or> (?okHi \<and> (n, k', s) = ?rHi)"
    by (auto simp: pick_def Let_def split: if_splits)
  then show ?thesis
  proof
    assume a: "?okLo \<and> (n, k', s) = (D, k, ?lo)"
    then have "?lo * 10 ^ ?j = x" using assms(2) by (auto dest: toDouble_eq_safe)
    with a assms(3) show ?thesis by simp
  next
    assume a: "?okHi \<and> (n, k', s) = ?rHi"
    show ?thesis
    proof (cases "?hi < 10 ^ k")
      case True
      with a have "toDouble (?hi * 10 ^ ?j) = x" by simp
      then have "?hi * 10 ^ ?j = x" using assms(2) by (rule toDouble_eq_safe)
      with a True assms(3) show ?thesis by simp
    next
      case False
      with a have "toDouble (10 ^ D) = x" by simp
      then have "10 ^ D = x" using assms(2) by (rule toDouble_eq_safe)
      with a False show ?thesis by simp
    qed
  qed
qed

lemma shortest_safe:
  "x < 2 ^ 53 \<Longrightarrow> shortest x D k = (n, k', s) \<Longrightarrow>
   s * 10 ^ (n - k') = x \<and> k' \<le> n \<and> n \<le> D + 1"
proof (induction x D k rule: shortest.induct)
  case (1 x D k)
  show ?case
  proof (cases "D \<le> k")
    case True
    with "1.prems" show ?thesis by (simp add: shortest.simps)
  next
    case False
    show ?thesis
    proof (cases "pick x D k")
      case None
      with False "1.prems" have "shortest x D (Suc k) = (n, k', s)"
        by (simp add: shortest.simps)
      with "1.IH" [OF False None] "1.prems" show ?thesis by simp
    next
      case (Some r)
      with False "1.prems" have "pick x D k = Some (n, k', s)"
        by (simp add: shortest.simps)
      moreover from False have "k \<le> D" by simp
      ultimately show ?thesis using "1.prems"(1) by (intro pick_Some)
    qed
  qed
qed

text \<open>Below \<open>2 ^ 53\<close> a number is printed with all its decimal digits.\<close>

lemma toString_safe: "x < 2 ^ 53 \<Longrightarrow> toString x = decimal x"
proof (cases "x = 0")
  case True
  then show ?thesis by (simp add: toString_def decimal.simps)
next
  case False
  assume x: "x < 2 ^ 53"
  obtain n k s where r: "shortest x (length (decimal x)) 1 = (n, k, s)"
    by (cases "shortest x (length (decimal x)) 1") auto
  from shortest_safe [OF x r]
  have v: "s * 10 ^ (n - k) = x" and n: "n \<le> length (decimal x) + 1" by simp_all
  from x have "x < 10 ^ 16" by simp
  then have "length (decimal x) \<le> 16" by (intro length_decimal) simp_all
  with n have n21: "n \<le> 21" by simp
  from v False have "0 < s" by (cases "s = 0") simp_all
  then have "decimal (s * 10 ^ (n - k)) = decimal s @ replicate (n - k) 48"
    by (rule decimal_times_power)
  with v have "decimal s @ replicate (n - k) 48 = decimal x" by simp
  with False r n21 show ?thesis by (simp add: toString_def)
qed

lemma toDouble_79:
  "2 ^ 78 \<le> v \<Longrightarrow> v < 2 ^ 79 \<Longrightarrow> toDouble v = roundDiv v (2 ^ 26) * 2 ^ 26"
proof -
  assume "2 ^ 78 \<le> v" and "v < 2 ^ 79"
  then have "bitlen v = 79" using bitlen_eqI [of 78 v] by simp
  then show ?thesis by (simp add: toDouble_def)
qed

lemma toDouble_78:
  "2 ^ 77 \<le> v \<Longrightarrow> v < 2 ^ 78 \<Longrightarrow> toDouble v = roundDiv v (2 ^ 25) * 2 ^ 25"
proof -
  assume "2 ^ 77 \<le> v" and "v < 2 ^ 78"
  then have "bitlen v = 78" using bitlen_eqI [of 77 v] by simp
  then show ?thesis by (simp add: toDouble_def)
qed

lemma hours_2_90: "floorQuotient (2 ^ 90) 3600 = 343872233134827853840384"
proof -
  have "bitlen (2 ^ 90 div 3600) = 79" by (rule bitlen_eqI [of 78, simplified]) simp_all
  then show ?thesis by (simp add: floorQuotient_def roundDiv_def Let_def)
qed

lemma toString_hours_2_90:
  "toString 343872233134827853840384 = ascii ''3.4387223313482785e+23''"
proof -
  have l: "length (decimal 343872233134827853840384) = 24" by (simp add: decimal.simps)
  have s: "shortest 343872233134827853840384 24 1 = (24, 17, 34387223313482785)"
    by (simp add: shortest.simps pick_def toDouble_79 toDouble_78 roundDiv_def Let_def)
  show ?thesis unfolding toString_def l s by (simp add: decimal.simps)
qed

lemma formatTime_unfold:
  assumes "s < 2 ^ 53"
  shows "formatTime s =
     padStart (decimal (s div 3600)) 2 [48] @ [58]
     @ [48 + (s mod 3600) div 60 div 10, 48 + (s mod 3600) div 60 mod 10] @ [58]
     @ [48 + s mod 60 div 10, 48 + s mod 60 mod 10]"
proof -
  have m: "(s mod 3600) div 60 < 100" using minutes_below_60 [of s] by simp
  have c: "s mod 60 < 100" using mod_less_divisor [of 60 s] by simp
  have h: "floorQuotient s 3600 = s div 3600" using assms by (rule floorQuotient_3600)
  have q: "floorQuotient (s mod 3600) 60 = (s mod 3600) div 60"
    by (rule floorQuotient_60) simp
  have "s div 3600 \<le> s" by simp
  with assms have th: "toString (s div 3600) = decimal (s div 3600)"
    by (intro toString_safe) simp
  from m have tm: "toString ((s mod 3600) div 60) = decimal ((s mod 3600) div 60)"
    by (intro toString_safe) simp
  from c have ts: "toString (s mod 60) = decimal (s mod 60)"
    by (intro toString_safe) simp
  show ?thesis
    unfolding formatTime_def Let_def h q th tm ts
    by (simp add: pad2_below_100 [OF m] pad2_below_100 [OF c])
qed

lemma hours_minutes_seconds:
  "s div 3600 * 3600 + (s mod 3600) div 60 * 60 + s mod 60 = (s::nat)"
proof -
  have "(s mod 3600) mod 60 = s mod 60" by (simp add: mod_mod_cancel)
  then have a: "(s mod 3600) div 60 * 60 + s mod 60 = s mod 3600"
    using div_mult_mod_eq [of "s mod 3600" 60] by simp
  have b: "s div 3600 * 3600 + s mod 3600 = s" by (rule div_mult_mod_eq)
  from a b show ?thesis by linarith
qed

text \<open>
  C9 as the specification states it holds for every nonnegative integer number of seconds.
  The numbers are doubles: for \<open>2 ^ 90\<close> seconds (a double) the quotient by 3600 is rounded,
  so that hours, minutes and seconds do not give back the seconds, and the hours are
  printed with an exponent.
\<close>

theorem formatTime_2_90_counterexample:
  "toDouble (2 ^ 90) = 2 ^ 90
   \<and> formatTime (2 ^ 90) = ascii ''3.4387223313482785e+23:37:04''
   \<and> floorQuotient (2 ^ 90) 3600 \<noteq> 2 ^ 90 div 3600
   \<and> floorQuotient (2 ^ 90) 3600 * 3600 + 37 * 60 + 4 \<noteq> 2 ^ 90"
proof -
  have d: "toDouble (2 ^ 90) = 2 ^ 90"
  proof -
    have "bitlen (2 ^ 90) = 91" by (rule bitlen_eqI [of 90, simplified]) simp_all
    then show ?thesis by (simp add: toDouble_def roundDiv_def Let_def)
  qed
  have m: "floorQuotient (2 ^ 90 mod 3600) 60 = 37"
    by (simp add: floorQuotient_60)
  have t: "toString 37 = ascii ''37''" "toString 4 = ascii ''4''"
    by (simp_all add: toString_safe decimal.simps)
  have s: "(2::nat) ^ 90 mod 60 = 4" by simp
  have f: "formatTime (2 ^ 90) = ascii ''3.4387223313482785e+23:37:04''"
    unfolding formatTime_def Let_def hours_2_90 toString_hours_2_90 m s t
    by (simp add: padStart_def)
  from d f hours_2_90 show ?thesis by simp
qed

text \<open>
  C9, amended. For every nonnegative integer number of seconds below \<open>2 ^ 53\<close> (the
  integers that the numbers of JavaScript hold without rounding), \<open>formatTime\<close> returns the
  hours, the minutes and the seconds joined by colons: the hours are \<open>s div 3600\<close> in
  decimal (padded to two digits at least), the minutes \<open>(s mod 3600) div 60\<close> and the
  seconds \<open>s mod 60\<close> are two decimal digits each and lie in 0..59, and the three values
  give back \<open>s\<close>.
\<close>

theorem formatTime_fields:
  assumes "s < 2 ^ 53"
  shows "(let H = s div 3600; M = (s mod 3600) div 60; S = s mod 60;
        hs = padStart (decimal H) 2 (ascii ''0'')
    in formatTime s =
         hs @ ascii '':'' @ [48 + M div 10, 48 + M mod 10] @ ascii '':''
         @ [48 + S div 10, 48 + S mod 10]
       \<and> list_all isDigit hs \<and> 2 \<le> length hs \<and> decimalValue hs = H
       \<and> M < 60 \<and> S < 60
       \<and> H * 3600 + M * 60 + S = s)"
  unfolding Let_def
  by (simp add: formatTime_unfold [OF assms] padStart_hours_length padStart_hours_digits
        padStart_hours_value minutes_below_60 hours_minutes_seconds)

theorem formatTime_fields_witness:
  "(3725::nat) < 2 ^ 53 \<and> (360000::nat) < 2 ^ 53
   \<and> formatTime 3725 = ascii ''01:02:05'' \<and> formatTime 360000 = ascii ''100:00:00''"
proof -
  have a: "(3725::nat) < 2 ^ 53" and b: "(360000::nat) < 2 ^ 53" by simp_all
  from formatTime_fields [OF a] formatTime_fields [OF b] a b show ?thesis
    by (simp add: Let_def decimal.simps padStart_def)
qed

text \<open>
  C1 as the specification states it says that the value \<open>123\<close> stays \<open>123\<close> until a fourth
  digit arrives. The handler tests \<open>value.length >= 3\<close>, so the separator is appended with
  the third digit already.
\<close>

theorem meetingId_three_digits_counterexample:
  "meetingIdInput_input (ascii ''123'') \<noteq> ascii ''123''"
  by (simp add: meetingIdInput_input_def slice_def sliceFrom_def isDigit_def)

text \<open>
  C1, amended. Whatever other characters the field holds, a value whose digits are
  \<open>1234567890\<close> is rendered as \<open>123-456-7890\<close>, a value whose digits are \<open>12\<close> as \<open>12\<close>, and
  a value whose digits are \<open>123\<close> as \<open>123-\<close>: the separator follows the third digit at once.
  Digits after the tenth are dropped.
\<close>

theorem meetingId_mask:
  "(filter isDigit v = ascii ''1234567890'' \<longrightarrow> meetingIdInput_input v = ascii ''123-456-7890'')
   \<and> (filter isDigit v = ascii ''12'' \<longrightarrow> meetingIdInput_input v = ascii ''12'')
   \<and> (filter isDigit v = ascii ''123'' \<longrightarrow> meetingIdInput_input v = ascii ''123-'')
   \<and> (filter isDigit v = ascii ''1234567890'' @ w \<longrightarrow>
        meetingIdInput_input v = ascii ''123-456-7890'')"
  by (cases w) (simp_all add: meetingIdInput_input_def slice_def sliceFrom_def Let_def)

theorem meetingId_mask_witness:
  "meetingIdInput_input (ascii ''(123) 456-7890'') = ascii ''123-456-7890''
   \<and> meetingIdInput_input (ascii ''1a2'') = ascii ''12''
   \<and> meetingIdInput_input (ascii ''123'') = ascii ''123-''
   \<and> meetingIdInput_input (ascii ''123456789012'') = ascii ''123-456-7890''"
  using meetingId_mask [of "ascii ''(123) 456-7890''" "[]"]
    meetingId_mask [of "ascii ''1a2''" "[]"]
    meetingId_mask [of "ascii ''123''" "[]"]
    meetingId_mask [of "ascii ''123456789012''" "ascii ''12''"]
  by (simp add: isDigit_def)

subsection \<open>The click handler of the submit buttons\<close>



text \<open>
  The listener has no guard of its own. Run on a busy button, which no click of the user
  does, it would save the busy markup, and its time-out would put that back.
\<close>

lemma onClick_on_busy_button:
  "submitButton
     (advance 4000 (advance 3000
        (onClick 1000 (onClick 0
           \<lparr>submitButton = \<lparr>markup = ascii ''Join'', disabled = False\<rparr>, pending = []\<rparr>))))
   = \<lparr>markup = loadingHTML, disabled = False\<rparr>"
  by (simp add: advance_def onClick_def restore_def)



section \<open>Properties of the message rendering\<close>

lemma url_scheme_Some:
  assumes "url_scheme s = Some n"
  shows "0 < n \<and> n \<le> length s"
proof -
  from assms have "(n = 8 \<and> take 8 s = ascii ''https://'') \<or> (n = 7 \<and> take 7 s = ascii ''http://'')"
    by (simp add: url_scheme_def split: if_splits)
  then have "0 < n \<and> length (take n s) = n"
  proof
    assume "n = 8 \<and> take 8 s = ascii ''https://''"
    then have "n = 8" and "length (take 8 s) = length (ascii ''https://'')" by simp_all
    then show ?thesis by simp
  next
    assume "n = 7 \<and> take 7 s = ascii ''http://''"
    then have "n = 7" and "length (take 7 s) = length (ascii ''http://'')" by simp_all
    then show ?thesis by simp
  qed
  then have "0 < n" and "min (length s) n = n" by simp_all
  then show ?thesis by linarith
qed

lemma match_url_shorter:
  assumes "match_url s = Some (m, rest)"
  shows "length rest < length s"
proof -
  from assms obtain n where n: "url_scheme s = Some n"
    and rest: "rest = dropWhile (\<lambda>c. \<not> isSpace c) (drop n s)"
    by (auto simp: match_url_def Let_def split: option.splits if_splits)
  have "length rest \<le> length (drop n s)"
    unfolding rest by (rule length_dropWhile_le)
  with url_scheme_Some [OF n] show ?thesis by (simp, linarith)
qed

lemma first_not_second: "isFirst c \<Longrightarrow> \<not> isSecond c"
  by (auto simp: isFirst_def isSecond_def)

lemma wf_table_Cons:
  "wf_table (((a, b), g) # tab) \<longleftrightarrow>
     isFirst a \<and> isSecond b \<and> g \<noteq> []
     \<and> (\<forall>c \<in> set g. \<not> isFirst c \<and> \<not> isSecond c \<and> \<not> isSpace c)
     \<and> wf_table tab"
  by (simp add: wf_table_def wf_entry_def)

lemma wf_table_lookup:
  assumes "wf_table tab" and "map_of tab (x, y) = Some g"
  shows "isFirst x \<and> isSecond y \<and> g \<noteq> []
         \<and> (\<forall>c \<in> set g. \<not> isFirst c \<and> \<not> isSecond c \<and> \<not> isSpace c)"
proof -
  from assms(2) have "((x, y), g) \<in> set tab" by (rule map_of_SomeD)
  with assms(1) have "wf_entry ((x, y), g)" unfolding wf_table_def by blast
  then show ?thesis by (simp add: wf_entry_def)
qed

lemma wf_table_emoji_passes: "wf_table emoji_passes"
  by (simp add: emoji_passes_def wf_table_def wf_entry_def isFirst_def isSecond_def isSpace_def)

lemma lookup_not_first: "wf_table tab \<Longrightarrow> \<not> isFirst x \<Longrightarrow> map_of tab (x, y) = None"
  using wf_table_lookup by (cases "map_of tab (x, y)") auto

lemma lookup_not_second: "wf_table tab \<Longrightarrow> \<not> isSecond y \<Longrightarrow> map_of tab (x, y) = None"
  using wf_table_lookup by (cases "map_of tab (x, y)") auto

text \<open>A code unit that starts no pattern is copied.\<close>

lemma emojify_Cons_not_first:
  "wf_table tab \<Longrightarrow> \<not> isFirst x \<Longrightarrow> emojify tab (x # s) = x # emojify tab s"
  by (cases s) (simp_all add: lookup_not_first)

lemma replace2_Cons_neq: "x \<noteq> a \<Longrightarrow> replace2 (x # s) (a, b) g = x # replace2 s (a, b) g"
  by (cases s) simp_all

lemma replace2_Cons_Cons_neq:
  "y \<noteq> b \<Longrightarrow> replace2 (x # y # s) (a, b) g = x # replace2 (y # s) (a, b) g"
  by simp

lemma replace2_append_plain:
  "\<forall>c \<in> set h. c \<noteq> a \<Longrightarrow> replace2 (h @ t) (a, b) g = h @ replace2 t (a, b) g"
  by (induction h) (simp_all add: replace2_Cons_neq)

text \<open>The first code unit of a substituted text is never a new second half of a pattern.\<close>

lemma emojify_head:
  assumes "wf_table tab" and "y \<noteq> b" and "isSecond b"
  shows "\<exists>c t. emojify tab (y # r) = c # t \<and> c \<noteq> b"
proof (cases r)
  case Nil
  with assms show ?thesis by simp
next
  case (Cons z r')
  show ?thesis
  proof (cases "map_of tab (y, z)")
    case None
    with Cons assms show ?thesis by simp
  next
    case (Some h)
    from wf_table_lookup [OF assms(1) Some]
    have "h \<noteq> []" and "\<forall>c \<in> set h. \<not> isSecond c" by auto
    then obtain c h' where h: "h = c # h'" and "\<not> isSecond c" by (cases h) auto
    with assms(3) have "c \<noteq> b" by auto
    with Cons Some h show ?thesis by simp
  qed
qed

lemma replace2_emojify:
  assumes "wf_table (((a, b), g) # tab)" and "map_of tab (a, b) = None"
  shows "replace2 (emojify tab s) (a, b) g = emojify (((a, b), g) # tab) s"
proof (induction "length s" arbitrary: s rule: less_induct)
  case less
  from assms have wf: "wf_table tab" and a: "isFirst a" and b: "isSecond b"
    by (simp_all add: wf_table_Cons)
  show ?case
  proof (cases s)
    case Nil
    then show ?thesis by simp
  next
    case (Cons x s')
    note s = this
    show ?thesis
    proof (cases s')
      case Nil
      with s show ?thesis by simp
    next
      case (Cons y r)
      note s' = this
      have IHr: "replace2 (emojify tab r) (a, b) g = emojify (((a, b), g) # tab) r"
        using less [of r] s s' by simp
      have IHyr: "replace2 (emojify tab (y # r)) (a, b) g = emojify (((a, b), g) # tab) (y # r)"
        using less [of "y # r"] s s' by simp
      show ?thesis
      proof (cases "map_of tab (x, y)")
        case (Some h)
        with assms(2) have neq: "(x, y) \<noteq> (a, b)" by auto
        from wf_table_lookup [OF wf Some] a have "\<forall>c \<in> set h. c \<noteq> a" by auto
        then have "replace2 (h @ emojify tab r) (a, b) g = h @ replace2 (emojify tab r) (a, b) g"
          by (rule replace2_append_plain)
        with Some neq IHr s s' show ?thesis by auto
      next
        case None
        show ?thesis
        proof (cases "(x, y) = (a, b)")
          case True
          from b first_not_second have "\<not> isFirst b" by auto
          with wf have "emojify tab (b # r) = b # emojify tab r"
            by (rule emojify_Cons_not_first)
          with True None IHr s s' show ?thesis by simp
        next
          case False
          have "replace2 (x # emojify tab (y # r)) (a, b) g
                = x # replace2 (emojify tab (y # r)) (a, b) g"
          proof (cases "x = a")
            case neq: False
            then show ?thesis by (rule replace2_Cons_neq)
          next
            case True
            with False have "y \<noteq> b" by simp
            from emojify_head [OF wf this b] obtain c t
              where e: "emojify tab (y # r) = c # t" and "c \<noteq> b" by blast
            then show ?thesis by simp
          qed
          with False None IHyr s s' show ?thesis by auto
        qed
      qed
    qed
  qed
qed

lemma emojify_Nil_table: "emojify [] s = s"
  by (induction "[] :: ((nat \<times> nat) \<times> jsstring) list" s rule: emojify.induct) simp_all

lemma emojify_cong_map_of: "map_of t1 = map_of t2 \<Longrightarrow> emojify t1 s = emojify t2 s"
  by (induction t1 s rule: emojify.induct) (simp_all split: option.splits)

lemma wf_table_append: "wf_table (xs @ ys) \<longleftrightarrow> wf_table xs \<and> wf_table ys"
  by (auto simp: wf_table_def)

lemma foldl_replace2_emojify:
  assumes "wf_table (ps @ tab)" and "distinct (map fst (ps @ tab))"
  shows "foldl (\<lambda>s (p, g). replace2 s p g) (emojify tab c) ps = emojify (rev ps @ tab) c"
  using assms
proof (induction ps arbitrary: tab)
  case Nil
  then show ?case by simp
next
  case (Cons pg ps)
  obtain a b g where pg: "pg = ((a, b), g)" by (cases pg) auto
  from Cons.prems have wf1: "wf_table (((a, b), g) # tab)"
    by (simp add: pg wf_table_def)
  from Cons.prems have "(a, b) \<notin> fst ` set tab" by (simp add: pg)
  then have none: "map_of tab (a, b) = None" by (simp add: map_of_eq_None_iff)
  have step: "replace2 (emojify tab c) (a, b) g = emojify (((a, b), g) # tab) c"
    using wf1 none by (rule replace2_emojify)
  from Cons.prems have wf2: "wf_table (ps @ ((a, b), g) # tab)"
    by (auto simp: pg wf_table_def)
  from Cons.prems have d2: "distinct (map fst (ps @ ((a, b), g) # tab))"
    by (auto simp: pg)
  from Cons.IH [OF wf2 d2] step show ?case by (simp add: pg)
qed

lemma passes_in_any_order:
  assumes "mset ps = mset emoji_passes"
  shows "foldl (\<lambda>s (p, g). replace2 s p g) c ps = emojify emoji_passes c"
proof -
  from assms have set: "set ps = set emoji_passes" by (rule mset_eq_setD)
  have d0: "distinct (map fst emoji_passes)" by (simp add: emoji_passes_def)
  have "mset (map fst ps) = mset (map fst emoji_passes)"
    using assms by simp
  from mset_eq_imp_distinct_iff [OF this] d0 have d: "distinct (map fst ps)" by simp
  from set wf_table_emoji_passes have wf: "wf_table ps" by (simp add: wf_table_def)
  have "foldl (\<lambda>s (p, g). replace2 s p g) (emojify [] c) ps = emojify (rev ps @ []) c"
    using wf d by (intro foldl_replace2_emojify) simp_all
  then have "foldl (\<lambda>s (p, g). replace2 s p g) c ps = emojify (rev ps) c"
    by (simp add: emojify_Nil_table)
  also have "emojify (rev ps) c = emojify emoji_passes c"
  proof (rule emojify_cong_map_of)
    have "map fst (rev ps) = rev (map fst ps)" by (rule rev_map [symmetric])
    with d have "distinct (map fst (rev ps))" by simp
    moreover from set have "set (rev ps) = set emoji_passes" by simp
    ultimately show "map_of (rev ps) = map_of emoji_passes"
      using d0 by (simp add: map_of_inject_set)
  qed
  finally show ?thesis .
qed

text \<open>Every occurrence of a pattern is replaced, whatever stands around it.\<close>

lemma emojify_occurrence:
  assumes "wf_table tab" and "map_of tab (a, b) = Some g"
  shows "emojify tab (u @ a # b # v) = emojify tab u @ g @ emojify tab v"
proof (induction "length u" arbitrary: u rule: less_induct)
  case less
  from wf_table_lookup [OF assms] have a: "isFirst a" by simp
  show ?case
  proof (cases u)
    case Nil
    with assms show ?thesis by simp
  next
    case (Cons x u')
    note u = this
    show ?thesis
    proof (cases u')
      case Nil
      from a first_not_second have "\<not> isSecond a" by auto
      with assms(1) have "map_of tab (x, a) = None" by (rule lookup_not_second)
      with assms u Nil show ?thesis by simp
    next
      case (Cons y r)
      have IHr: "emojify tab (r @ a # b # v) = emojify tab r @ g @ emojify tab v"
        using less [of r] u Cons by simp
      have IHyr: "emojify tab ((y # r) @ a # b # v) = emojify tab (y # r) @ g @ emojify tab v"
        using less [of "y # r"] u Cons by simp
      show ?thesis
      proof (cases "map_of tab (x, y)")
        case None
        with IHyr u Cons show ?thesis by simp
      next
        case (Some h)
        with IHr u Cons show ?thesis by simp
      qed
    qed
  qed
qed

lemma space_not_first: "isSpace c \<Longrightarrow> \<not> isFirst c"
  by (auto simp: isSpace_def isFirst_def)

lemma space_not_second: "isSpace c \<Longrightarrow> \<not> isSecond c"
  by (auto simp: isSpace_def isSecond_def)

lemma emojify_append_left:
  assumes "wf_table tab" and "pre = [] \<or> \<not> isFirst (last pre)"
  shows "emojify tab (pre @ t) = emojify tab pre @ emojify tab t"
  using assms(2)
proof (induction "length pre" arbitrary: pre rule: less_induct)
  case less
  show ?case
  proof (cases pre)
    case Nil
    then show ?thesis by simp
  next
    case (Cons x u)
    note pre = this
    show ?thesis
    proof (cases u)
      case Nil
      with less.prems pre have "\<not> isFirst x" by simp
      with assms(1) have "emojify tab (x # t) = x # emojify tab t"
        by (rule emojify_Cons_not_first)
      with pre Nil show ?thesis by simp
    next
      case (Cons y r)
      have IHr: "emojify tab (r @ t) = emojify tab r @ emojify tab t"
        using less.hyps [of r] less.prems pre Cons by (cases r) simp_all
      have IHyr: "emojify tab ((y # r) @ t) = emojify tab (y # r) @ emojify tab t"
        using less.hyps [of "y # r"] less.prems pre Cons by simp
      show ?thesis
      proof (cases "map_of tab (x, y)")
        case None
        with IHyr pre Cons show ?thesis by simp
      next
        case (Some h)
        with IHr pre Cons show ?thesis by simp
      qed
    qed
  qed
qed

lemma emojify_append_right:
  assumes "wf_table tab" and "t = [] \<or> \<not> isSecond (hd t)"
  shows "emojify tab (s @ t) = emojify tab s @ emojify tab t"
proof (induction "length s" arbitrary: s rule: less_induct)
  case less
  show ?case
  proof (cases s)
    case Nil
    then show ?thesis by simp
  next
    case (Cons x u)
    note s = this
    show ?thesis
    proof (cases u)
      case Nil
      show ?thesis
      proof (cases t)
        case Nil
        then show ?thesis by simp
      next
        case (Cons z t')
        with assms(2) have "\<not> isSecond z" by simp
        with assms(1) have "map_of tab (x, z) = None" by (rule lookup_not_second)
        with s Nil Cons show ?thesis by simp
      qed
    next
      case (Cons y r)
      have IHr: "emojify tab (r @ t) = emojify tab r @ emojify tab t"
        using less [of r] s Cons by simp
      have IHyr: "emojify tab ((y # r) @ t) = emojify tab (y # r) @ emojify tab t"
        using less [of "y # r"] s Cons by simp
      show ?thesis
      proof (cases "map_of tab (x, y)")
        case None
        with IHyr s Cons show ?thesis by simp
      next
        case (Some h)
        with IHr s Cons show ?thesis by simp
      qed
    qed
  qed
qed

lemma includes_Cons: "js_includes s p \<Longrightarrow> js_includes (x # s) p"
  by simp

lemma emojify_without_pattern:
  "\<forall>e \<in> set tab. \<not> js_includes s [fst (fst e), snd (fst e)] \<Longrightarrow> emojify tab s = s"
proof (induction tab s rule: emojify.induct)
  case (1 tab x y s)
  have none: "map_of tab (x, y) = None"
  proof (cases "map_of tab (x, y)")
    case (Some g)
    then have "((x, y), g) \<in> set tab" by (rule map_of_SomeD)
    with "1.prems" have "\<not> js_includes (x # y # s) [x, y]" by fastforce
    then show ?thesis by simp
  qed simp
  have "\<forall>e \<in> set tab. \<not> js_includes (y # s) [fst (fst e), snd (fst e)]"
    using "1.prems" includes_Cons by blast
  with none have "emojify tab (y # s) = y # s" by (rule "1.IH"(1))
  with none show ?case by simp
qed simp_all

lemma emojify_without_emoticon: "\<not> hasEmoticon s \<Longrightarrow> emojify emoji_passes s = s"
  by (rule emojify_without_pattern) (simp add: hasEmoticon_def list_ex_iff)

lemma emojify_nonspace:
  "wf_table tab \<Longrightarrow> \<forall>c \<in> set s. \<not> isSpace c \<Longrightarrow> \<forall>c \<in> set (emojify tab s). \<not> isSpace c"
proof (induction tab s rule: emojify.induct)
  case (1 tab x y s)
  from "1.prems"(2) have x: "\<not> isSpace x" and ys: "\<forall>c \<in> set (y # s). \<not> isSpace c"
    and s: "\<forall>c \<in> set s. \<not> isSpace c" by simp_all
  show ?case
  proof (cases "map_of tab (x, y)")
    case None
    from "1.IH"(1) [OF None "1.prems"(1) ys] x None show ?thesis by simp
  next
    case (Some h)
    from wf_table_lookup [OF "1.prems"(1) Some] have "\<forall>c \<in> set h. \<not> isSpace c" by simp
    with "1.IH"(2) [OF Some "1.prems"(1) s] Some show ?thesis by auto
  qed
qed simp_all

lemma emojify_nonempty: "wf_table tab \<Longrightarrow> s \<noteq> [] \<Longrightarrow> emojify tab s \<noteq> []"
proof (induction tab s rule: emojify.induct)
  case (1 tab x y s)
  show ?case
  proof (cases "map_of tab (x, y)")
    case None
    then show ?thesis by simp
  next
    case (Some h)
    from wf_table_lookup [OF "1.prems"(1) Some] have "h \<noteq> []" by simp
    with Some show ?thesis by simp
  qed
qed simp_all

text \<open>Whitespace at the seam keeps the substitution and the link pass local.\<close>

lemma emojify_last_space:
  assumes "wf_table tab" and "s \<noteq> []" and "isSpace (last s)"
  shows "emojify tab s \<noteq> [] \<and> isSpace (last (emojify tab s))"
proof -
  have "\<not> isSecond (hd [last s])" using assms(3) by (simp add: space_not_second)
  then have "emojify tab (butlast s @ [last s]) = emojify tab (butlast s) @ emojify tab [last s]"
    using assms(1) by (intro emojify_append_right) simp_all
  with assms(2) have "emojify tab s = emojify tab (butlast s) @ [last s]" by simp
  with assms(3) show ?thesis by simp
qed

lemma emojify_hd_space:
  assumes "wf_table tab" and "s \<noteq> []" and "isSpace (hd s)"
  shows "emojify tab s \<noteq> [] \<and> isSpace (hd (emojify tab s))"
proof -
  from assms(2) obtain x r where s: "s = x # r" by (cases s) auto
  with assms(3) have "\<not> isFirst x" by (simp add: space_not_first)
  with assms(1) have "emojify tab (x # r) = x # emojify tab r" by (rule emojify_Cons_not_first)
  with s assms(3) show ?thesis by simp
qed

lemma linkify_unfold:
  "s \<noteq> [] \<Longrightarrow> linkify s =
     (case match_url s of Some (m, rest) \<Rightarrow> anchor m @ linkify rest
      | None \<Rightarrow> hd s # linkify (tl s))"
  by (cases s) (simp_all split: option.split)

lemma take_append_space:
  assumes "\<forall>c \<in> set p. \<not> isSpace c" and "a \<noteq> []" and "isSpace (last a)" and "length p = n"
  shows "take n (a @ b) = p \<longleftrightarrow> take n a = p"
proof (cases "n \<le> length a")
  case True
  then show ?thesis by simp
next
  case False
  then have short: "length a < length p" using assms(4) by simp
  have "take n a \<noteq> p"
  proof
    assume "take n a = p"
    then have "length (take n a) = length p" by simp
    with short assms(4) show False by simp
  qed
  moreover have "take n (a @ b) \<noteq> p"
  proof
    assume eq: "take n (a @ b) = p"
    from False have "take n (a @ b) = a @ take (n - length a) b" by simp
    with eq have "set a \<subseteq> set p" by auto
    moreover from assms(2) have "last a \<in> set a" by simp
    ultimately show False using assms(1,3) by auto
  qed
  ultimately show ?thesis by simp
qed

lemma url_scheme_append:
  assumes "a \<noteq> []" and "isSpace (last a)"
  shows "url_scheme (a @ b) = url_scheme a"
proof -
  have "take 8 (a @ b) = ascii ''https://'' \<longleftrightarrow> take 8 a = ascii ''https://''"
    using assms by (intro take_append_space) (simp_all add: isSpace_def)
  moreover have "take 7 (a @ b) = ascii ''http://'' \<longleftrightarrow> take 7 a = ascii ''http://''"
    using assms by (intro take_append_space) (simp_all add: isSpace_def)
  ultimately show ?thesis unfolding url_scheme_def by simp
qed

lemma url_scheme_nonspace:
  assumes "url_scheme s = Some n"
  shows "\<forall>c \<in> set (take n s). \<not> isSpace c"
proof -
  from assms have "(n = 8 \<and> take 8 s = ascii ''https://'') \<or> (n = 7 \<and> take 7 s = ascii ''http://'')"
    by (simp add: url_scheme_def split: if_splits)
  then show ?thesis by (auto simp: isSpace_def)
qed

lemma match_url_append:
  assumes "a \<noteq> []" and "isSpace (last a)"
  shows "match_url (a @ b) =
           (case match_url a of None \<Rightarrow> None | Some (m, rest) \<Rightarrow> Some (m, rest @ b))"
    and "match_url a = Some (m, rest) \<Longrightarrow> rest \<noteq> [] \<and> isSpace (last rest)"
proof -
  have sch: "url_scheme (a @ b) = url_scheme a" using assms by (rule url_scheme_append)
  {
    fix n assume n: "url_scheme a = Some n"
    from url_scheme_Some [OF n] have le: "n \<le> length a" by simp
    have "drop n a \<noteq> []"
    proof
      assume "drop n a = []"
      then have "take n a = a" by simp
      with url_scheme_nonspace [OF n] assms show False by (metis last_in_set)
    qed
    then have lt: "n < length a" by simp
    then have last: "last (drop n a) = last a" by (rule last_drop)
    have ex: "last (drop n a) \<in> set (drop n a)"
      using \<open>drop n a \<noteq> []\<close> by (rule last_in_set)
    have sp: "\<not> \<not> isSpace (last (drop n a))"
      using last assms(2) by simp
    have tw: "takeWhile (\<lambda>c. \<not> isSpace c) (drop n a @ b) = takeWhile (\<lambda>c. \<not> isSpace c) (drop n a)"
      using ex sp by (rule takeWhile_append1)
    have dw: "dropWhile (\<lambda>c. \<not> isSpace c) (drop n a @ b) = dropWhile (\<lambda>c. \<not> isSpace c) (drop n a) @ b"
      using ex sp by (rule dropWhile_append1)
    have ne: "dropWhile (\<lambda>c. \<not> isSpace c) (drop n a) \<noteq> []"
      using ex sp by (auto simp: dropWhile_eq_Nil_conv)
    have "takeWhile (\<lambda>c. \<not> isSpace c) (drop n a) @ dropWhile (\<lambda>c. \<not> isSpace c) (drop n a) = drop n a"
      by (rule takeWhile_dropWhile_id)
    with ne have "last (dropWhile (\<lambda>c. \<not> isSpace c) (drop n a)) = last (drop n a)"
      by (metis last_appendR)
    with last assms(2) have sp': "isSpace (last (dropWhile (\<lambda>c. \<not> isSpace c) (drop n a)))"
      by simp
    note le tw dw ne sp'
  } note facts = this
  show "match_url (a @ b) =
           (case match_url a of None \<Rightarrow> None | Some (m, rest) \<Rightarrow> Some (m, rest @ b))"
  proof (cases "url_scheme a")
    case None
    with sch show ?thesis by (simp add: match_url_def)
  next
    case (Some n)
    with sch facts(1-3) [OF Some] show ?thesis
      by (simp add: match_url_def Let_def)
  qed
  show "rest \<noteq> [] \<and> isSpace (last rest)" if "match_url a = Some (m, rest)"
  proof -
    from that obtain n where n: "url_scheme a = Some n"
      and rest: "rest = dropWhile (\<lambda>c. \<not> isSpace c) (drop n a)"
      by (auto simp: match_url_def Let_def split: option.splits if_splits)
    from facts(4,5) [OF n] rest show ?thesis by simp
  qed
qed

lemma linkify_append:
  assumes "a = [] \<or> isSpace (last a)"
  shows "linkify (a @ b) = linkify a @ linkify b"
  using assms
proof (induction "length a" arbitrary: a rule: less_induct)
  case less
  show ?case
  proof (cases a)
    case Nil
    then show ?thesis by simp
  next
    case (Cons c cs)
    with less.prems have sp: "isSpace (last a)" and ne: "a \<noteq> []" by simp_all
    note m = match_url_append [OF ne sp]
    show ?thesis
    proof (cases "match_url a")
      case None
      have "cs = [] \<or> isSpace (last cs)" using sp Cons by (cases cs) simp_all
      with less.hyps [of cs] Cons have "linkify (cs @ b) = linkify cs @ linkify b" by simp
      with None m(1) [of b] Cons show ?thesis by simp
    next
      case (Some mr)
      obtain u rest where mr: "mr = (u, rest)" by (cases mr)
      from Some mr have ma: "match_url a = Some (u, rest)" by simp
      from m(2) [OF ma] have "rest = [] \<or> isSpace (last rest)" by simp
      moreover from match_url_shorter [OF ma] have "length rest < length a" .
      ultimately have "linkify (rest @ b) = linkify rest @ linkify b"
        using less.hyps [of rest] by simp
      with ma m(1) [of b] Cons show ?thesis by simp
    qed
  qed
qed

lemma match_url_whole:
  assumes "scheme = ascii ''http://'' \<or> scheme = ascii ''https://''"
    and "body \<noteq> []" and "\<forall>c \<in> set body. \<not> isSpace c"
    and "t = [] \<or> isSpace (hd t)"
  shows "match_url (scheme @ body @ t) = Some (scheme @ body, t)"
proof -
  let ?P = "\<lambda>c. \<not> isSpace c"
  from assms(4) have t: "takeWhile ?P t = []" "dropWhile ?P t = t"
    by (cases t; simp)+
  from assms(3) have "takeWhile ?P (body @ t) = body @ takeWhile ?P t"
    by (intro takeWhile_append2) simp
  with t have tw: "takeWhile ?P (body @ t) = body" by simp
  from assms(3) have "dropWhile ?P (body @ t) = dropWhile ?P t"
    by (intro dropWhile_append2) simp
  with t have dw: "dropWhile ?P (body @ t) = t" by simp
  from assms(1) show ?thesis
  proof
    assume s: "scheme = ascii ''http://''"
    then have "url_scheme (scheme @ body @ t) = Some 7" by (simp add: url_scheme_def)
    with s tw dw assms(2) show ?thesis by (simp add: match_url_def)
  next
    assume s: "scheme = ascii ''https://''"
    then have "url_scheme (scheme @ body @ t) = Some 8" by (simp add: url_scheme_def)
    with s tw dw assms(2) show ?thesis by (simp add: match_url_def)
  qed
qed

lemma whole_match_parts:
  assumes "match_url u = Some (u, [])"
  obtains scheme body where "u = scheme @ body"
    and "scheme = ascii ''http://'' \<or> scheme = ascii ''https://''"
    and "body \<noteq> []" and "\<forall>c \<in> set body. \<not> isSpace c"
proof -
  let ?P = "\<lambda>c. \<not> isSpace c"
  from assms obtain n where n: "url_scheme u = Some n"
    and ne: "takeWhile ?P (drop n u) \<noteq> []"
    and dw: "dropWhile ?P (drop n u) = []"
    by (auto simp: match_url_def Let_def split: option.splits if_splits)
  from dw have all: "\<forall>c \<in> set (drop n u). \<not> isSpace c"
    by (simp add: dropWhile_eq_Nil_conv)
  from ne have body: "drop n u \<noteq> []" by auto
  from n have sch: "take n u = ascii ''http://'' \<or> take n u = ascii ''https://''"
    by (auto simp: url_scheme_def split: if_splits)
  have "u = take n u @ drop n u" by simp
  then show ?thesis using sch body all by (rule that)
qed

lemma formatMessageContent_emojify:
  "formatMessageContent c = linkify (emojify emoji_passes c)"
proof -
  have "formatMessageContent c = linkify (foldl (\<lambda>s (p, g). replace2 s p g) c emoji_passes)"
    by (simp add: formatMessageContent_def emoji_passes_def)
  then show ?thesis by (simp add: passes_in_any_order)
qed

lemma emojify_scheme:
  "scheme = ascii ''http://'' \<or> scheme = ascii ''https://'' \<Longrightarrow>
   emojify emoji_passes (scheme @ body) = scheme @ emojify emoji_passes body"
proof -
  assume s: "scheme = ascii ''http://'' \<or> scheme = ascii ''https://''"
  then have "scheme = [] \<or> \<not> isFirst (last scheme)" by (auto simp: isFirst_def)
  with wf_table_emoji_passes
  have "emojify emoji_passes (scheme @ body)
        = emojify emoji_passes scheme @ emojify emoji_passes body"
    by (rule emojify_append_left)
  moreover from s have "emojify emoji_passes scheme = scheme"
    by (auto simp: emoji_passes_def)
  ultimately show ?thesis by simp
qed

lemma formatMessageContent_url:
  assumes "match_url url = Some (url, [])"
    and "pre = [] \<or> isSpace (last pre)" and "post = [] \<or> isSpace (hd post)"
  shows "formatMessageContent (pre @ url @ post) =
           formatMessageContent pre @ anchor (emojify emoji_passes url)
           @ formatMessageContent post"
proof -
  let ?E = "emojify emoji_passes"
  note wf = wf_table_emoji_passes
  from assms(1) obtain scheme body where u: "url = scheme @ body"
    and sch: "scheme = ascii ''http://'' \<or> scheme = ascii ''https://''"
    and body: "body \<noteq> []" "\<forall>c \<in> set body. \<not> isSpace c"
    by (rule whole_match_parts)
  from assms(2) have "pre = [] \<or> \<not> isFirst (last pre)" by (auto simp: space_not_first)
  with wf have 1: "?E (pre @ url @ post) = ?E pre @ ?E (url @ post)"
    by (rule emojify_append_left)
  from assms(3) have "post = [] \<or> \<not> isSecond (hd post)" by (auto simp: space_not_second)
  with wf have 2: "?E (url @ post) = ?E url @ ?E post"
    by (rule emojify_append_right)
  have 3: "?E url = scheme @ ?E body" unfolding u using sch by (rule emojify_scheme)
  have pre': "?E pre = [] \<or> isSpace (last (?E pre))"
    using assms(2) emojify_last_space [OF wf, of pre] by (cases "pre = []") auto
  have post': "?E post = [] \<or> isSpace (hd (?E post))"
    using assms(3) emojify_hd_space [OF wf, of post] by (cases "post = []") auto
  have body': "?E body \<noteq> []" "\<forall>c \<in> set (?E body). \<not> isSpace c"
    using body emojify_nonempty [OF wf] emojify_nonspace [OF wf] by simp_all
  have m: "match_url (scheme @ ?E body @ ?E post) = Some (scheme @ ?E body, ?E post)"
    using sch body' post' by (rule match_url_whole)
  from sch have "scheme @ ?E body @ ?E post \<noteq> []" by auto
  from linkify_unfold [OF this] m
  have 4: "linkify (scheme @ ?E body @ ?E post) = anchor (scheme @ ?E body) @ linkify (?E post)"
    by simp
  have "formatMessageContent (pre @ url @ post) = linkify (?E pre @ (scheme @ ?E body @ ?E post))"
    by (simp add: formatMessageContent_emojify 1 2 3)
  also have "\<dots> = linkify (?E pre) @ linkify (scheme @ ?E body @ ?E post)"
    using pre' by (rule linkify_append)
  finally show ?thesis by (simp add: 4 3 formatMessageContent_emojify)
qed

text \<open>After the substitution no pattern of the table is left.\<close>

lemma pattern_free_append_plain:
  assumes "wf_table tab" and "\<forall>c \<in> set h. \<not> isFirst c" and "pattern_free tab t"
  shows "pattern_free tab (h @ t)"
  using assms(2)
proof (induction h)
  case Nil
  with assms(3) show ?case by simp
next
  case (Cons c h)
  then have c: "\<not> isFirst c" and IH: "pattern_free tab (h @ t)" by simp_all
  show ?case
  proof (cases "h @ t")
    case Nil
    then show ?thesis by simp
  next
    case (Cons z r)
    from assms(1) c have "map_of tab (c, z) = None" by (rule lookup_not_first)
    with IH Cons show ?thesis by simp
  qed
qed

lemma emojify_head_lookup:
  assumes "wf_table tab" and "map_of tab (x, y) = None"
  shows "\<exists>c t. emojify tab (y # r) = c # t \<and> map_of tab (x, c) = None"
proof (cases r)
  case Nil
  with assms show ?thesis by simp
next
  case (Cons z r')
  show ?thesis
  proof (cases "map_of tab (y, z)")
    case None
    with Cons assms show ?thesis by simp
  next
    case (Some h)
    from wf_table_lookup [OF assms(1) Some]
    have "h \<noteq> []" and "\<forall>c \<in> set h. \<not> isSecond c" by auto
    then obtain c h' where h: "h = c # h'" and "\<not> isSecond c" by (cases h) auto
    with assms(1) have "map_of tab (x, c) = None" by (simp add: lookup_not_second)
    with Cons Some h show ?thesis by simp
  qed
qed

lemma pattern_free_emojify:
  assumes "wf_table tab"
  shows "pattern_free tab (emojify tab s)"
proof (induction "length s" arbitrary: s rule: less_induct)
  case less
  show ?case
  proof (cases s)
    case Nil
    then show ?thesis by simp
  next
    case (Cons x s')
    note s = this
    show ?thesis
    proof (cases s')
      case Nil
      with s show ?thesis by simp
    next
      case (Cons y r)
      have IHr: "pattern_free tab (emojify tab r)" using less [of r] s Cons by simp
      have IHyr: "pattern_free tab (emojify tab (y # r))" using less [of "y # r"] s Cons by simp
      show ?thesis
      proof (cases "map_of tab (x, y)")
        case (Some h)
        from wf_table_lookup [OF assms Some] have "\<forall>c \<in> set h. \<not> isFirst c" by simp
        with assms have "pattern_free tab (h @ emojify tab r)"
          using IHr by (rule pattern_free_append_plain)
        with Some s Cons show ?thesis by simp
      next
        case None
        from emojify_head_lookup [OF assms None] obtain c t
          where e: "emojify tab (y # r) = c # t" and n: "map_of tab (x, c) = None" by blast
        with IHyr have "pattern_free tab (x # emojify tab (y # r))" by simp
        with None s Cons show ?thesis by simp
      qed
    qed
  qed
qed

lemma pattern_free_not_includes:
  "pattern_free tab t \<Longrightarrow> map_of tab (a, b) = Some g \<Longrightarrow> \<not> js_includes t [a, b]"
proof (induction tab t rule: pattern_free.induct)
  case (1 tab x y s)
  then show ?case by auto
qed simp_all

lemma emojify_no_emoticon: "\<not> hasEmoticon (emojify emoji_passes s)"
proof -
  have d: "distinct (map fst emoji_passes)" by (simp add: emoji_passes_def)
  have p: "pattern_free emoji_passes (emojify emoji_passes s)"
    using wf_table_emoji_passes by (rule pattern_free_emojify)
  have "\<not> js_includes (emojify emoji_passes s) [fst (fst e), snd (fst e)]"
    if "e \<in> set emoji_passes" for e
  proof -
    from that d have "map_of emoji_passes (fst e) = Some (snd e)" by simp
    then have "map_of emoji_passes (fst (fst e), snd (fst e)) = Some (snd e)" by simp
    with p show ?thesis by (rule pattern_free_not_includes)
  qed
  then show ?thesis by (auto simp: hasEmoticon_def list_ex_iff)
qed

text \<open>The text before a URL: its last run of code units without white space.\<close>

lemma lastRun_split:
  obtains before where "s = before @ lastRun s" and "before = [] \<or> isSpace (last before)"
    and "\<forall>c \<in> set (lastRun s). \<not> isSpace c"
proof -
  let ?P = "\<lambda>c. \<not> isSpace c"
  let ?b = "rev (dropWhile ?P (rev s))"
  have "rev (takeWhile ?P (rev s) @ dropWhile ?P (rev s)) = s"
    by (simp only: takeWhile_dropWhile_id rev_rev_ident)
  then have 1: "s = ?b @ lastRun s" by (simp only: rev_append lastRun_def)
  have 2: "?b = [] \<or> isSpace (last ?b)"
  proof (cases "dropWhile ?P (rev s) = []")
    case True
    then show ?thesis by simp
  next
    case False
    then have "\<not> ?P (hd (dropWhile ?P (rev s)))" by (rule hd_dropWhile)
    with False show ?thesis by (simp add: last_rev)
  qed
  have 3: "\<forall>c \<in> set (lastRun s). \<not> isSpace c"
    by (auto simp: lastRun_def dest: set_takeWhileD)
  from 1 2 3 show ?thesis by (rule that)
qed

text \<open>A text without code units of the glyphs is found in the substituted text only where it was.\<close>

lemma emojify_prefix:
  "wf_table tab \<Longrightarrow> \<forall>e \<in> set tab. set (snd e) \<inter> set p = {} \<Longrightarrow>
   take (length p) (emojify tab s) = p \<Longrightarrow> take (length p) s = p"
proof (induction tab s arbitrary: p rule: emojify.induct)
  case (1 tab x y s)
  show ?case
  proof (cases p)
    case Nil
    then show ?thesis by simp
  next
    case (Cons c p')
    note p = this
    show ?thesis
    proof (cases "map_of tab (x, y)")
      case None
      with "1.prems"(3) p have c: "c = x" and t: "take (length p') (emojify tab (y # s)) = p'"
        by simp_all
      from "1.prems"(2) p have "\<forall>e \<in> set tab. set (snd e) \<inter> set p' = {}" by auto
      from "1.IH"(1) [OF None "1.prems"(1) this t] have "take (length p') (y # s) = p'" .
      with c p show ?thesis by simp
    next
      case (Some h)
      then have "((x, y), h) \<in> set tab" by (rule map_of_SomeD)
      with "1.prems"(2) have disj: "set h \<inter> set p = {}" by fastforce
      from wf_table_lookup [OF "1.prems"(1) Some] have "h \<noteq> []" by simp
      then obtain g h' where h: "h = g # h'" by (cases h) auto
      with Some "1.prems"(3) p have "c = g" by simp
      with disj h p show ?thesis by simp
    qed
  qed
qed simp_all

lemma includes_skip:
  "set h \<inter> set p = {} \<Longrightarrow> p \<noteq> [] \<Longrightarrow> js_includes (h @ t) p \<Longrightarrow> js_includes t p"
proof (induction h)
  case Nil
  then show ?case by simp
next
  case (Cons g h)
  from Cons.prems(2) obtain c p' where p: "p = c # p'" by (cases p) auto
  from Cons.prems(1) p have "c \<noteq> g" by auto
  with p have "take (length p) (g # h @ t) \<noteq> p" by simp
  with Cons.prems(3) have "js_includes (h @ t) p" by simp
  moreover from Cons.prems(1) have "set h \<inter> set p = {}" by auto
  ultimately show ?case using Cons.IH Cons.prems(2) by simp
qed

lemma emojify_includes:
  "wf_table tab \<Longrightarrow> \<forall>e \<in> set tab. set (snd e) \<inter> set p = {} \<Longrightarrow> p \<noteq> [] \<Longrightarrow>
   js_includes (emojify tab s) p \<Longrightarrow> js_includes s p"
proof (induction tab s rule: emojify.induct)
  case (1 tab x y s)
  show ?case
  proof (cases "map_of tab (x, y)")
    case None
    with "1.prems"(4)
    have "take (length p) (emojify tab (x # y # s)) = p \<or> js_includes (emojify tab (y # s)) p"
      by simp
    then show ?thesis
    proof
      assume "take (length p) (emojify tab (x # y # s)) = p"
      with "1.prems"(1,2) have "take (length p) (x # y # s) = p" by (rule emojify_prefix)
      then show ?thesis by simp
    next
      assume "js_includes (emojify tab (y # s)) p"
      with "1.IH"(1) [OF None "1.prems"(1,2,3)] have "js_includes (y # s) p" .
      then show ?thesis by (rule includes_Cons)
    qed
  next
    case (Some h)
    then have "((x, y), h) \<in> set tab" by (rule map_of_SomeD)
    with "1.prems"(2) have disj: "set h \<inter> set p = {}" by fastforce
    from Some "1.prems"(4) have "js_includes (h @ emojify tab s) p" by simp
    with disj "1.prems"(3) have "js_includes (emojify tab s) p" by (rule includes_skip)
    with "1.IH"(2) [OF Some "1.prems"(1,2,3)] have "js_includes s p" .
    then have "js_includes (y # s) p" by (rule includes_Cons)
    then show ?thesis by (rule includes_Cons)
  qed
qed simp_all

text \<open>
  The URL pattern does not match inside a run of code units that holds no scheme, also
  when a text follows that starts with \<open>h\<close>: the schemes hold \<open>h\<close> at their start only.
\<close>

lemma no_straddle:
  assumes "\<not> js_includes u p" and "u \<noteq> []" and "w = [] \<or> hd w = 104"
    and "104 \<notin> set (tl p)"
  shows "take (length p) (u @ w) \<noteq> p"
proof
  assume eq: "take (length p) (u @ w) = p"
  from assms(2) obtain c cs where u: "u = c # cs" by (cases u) auto
  show False
  proof (cases "length p \<le> length u")
    case True
    with eq have "take (length p) u = p" by simp
    with u have "js_includes u p" by simp
    with assms(1) show False ..
  next
    case False
    then have lt: "length u < length p" by simp
    have "w \<noteq> []"
    proof
      assume "w = []"
      with eq have "length (take (length p) u) = length p" by simp
      with lt show False by simp
    qed
    with assms(3) have hd: "hd w = 104" by simp
    from \<open>w \<noteq> []\<close> have "(u @ w) ! length u = hd w" by (simp add: nth_append hd_conv_nth)
    moreover from lt have "take (length p) (u @ w) ! length u = (u @ w) ! length u"
      by (rule nth_take)
    ultimately have "p ! length u = 104" using eq hd by simp
    moreover from u lt have "p ! length u = tl p ! (length u - 1)" by (simp add: nth_tl)
    moreover from u lt have "length u - 1 < length (tl p)" by simp
    ultimately have "104 \<in> set (tl p)" by (metis nth_mem)
    with assms(4) show False ..
  qed
qed

lemma linkify_plain_run:
  assumes "w = [] \<or> hd w = 104"
  shows "\<not> js_includes u (ascii ''http://'') \<Longrightarrow> \<not> js_includes u (ascii ''https://'') \<Longrightarrow>
         linkify (u @ w) = u @ linkify w"
proof (induction u)
  case Nil
  then show ?case by simp
next
  case (Cons c r)
  have l7: "length (ascii ''http://'') = 7" and l8: "length (ascii ''https://'') = 8"
    by simp_all
  have "take (length (ascii ''http://'')) ((c # r) @ w) \<noteq> ascii ''http://''"
    using Cons.prems(1) _ assms by (rule no_straddle) simp_all
  then have 7: "take 7 ((c # r) @ w) \<noteq> ascii ''http://''" unfolding l7 .
  have "take (length (ascii ''https://'')) ((c # r) @ w) \<noteq> ascii ''https://''"
    using Cons.prems(2) _ assms by (rule no_straddle) simp_all
  then have 8: "take 8 ((c # r) @ w) \<noteq> ascii ''https://''" unfolding l8 .
  have "url_scheme ((c # r) @ w) = None" by (simp only: url_scheme_def 7 8 if_False)
  then have "match_url ((c # r) @ w) = None" by (simp only: match_url_def option.case)
  then have "linkify ((c # r) @ w) = c # linkify (r @ w)" by simp
  moreover from Cons.prems have "\<not> js_includes r (ascii ''http://'')"
    "\<not> js_includes r (ascii ''https://'')" by (auto dest: includes_Cons)
  ultimately show ?case using Cons.IH by simp
qed

lemma scheme_glyph_free:
  "\<forall>e \<in> set emoji_passes. set (snd e) \<inter> set (ascii ''http://'') = {}"
  "\<forall>e \<in> set emoji_passes. set (snd e) \<inter> set (ascii ''https://'') = {}"
  by (simp_all add: emoji_passes_def)

lemma formatMessageContent_url_run:
  assumes "match_url url = Some (url, [])"
    and "\<not> js_includes (lastRun pre) (ascii ''http://'')"
    and "\<not> js_includes (lastRun pre) (ascii ''https://'')"
    and "post = [] \<or> isSpace (hd post)"
  shows "formatMessageContent (pre @ url @ post) =
           formatMessageContent pre @ anchor (emojify emoji_passes url)
           @ formatMessageContent post"
proof -
  let ?E = "emojify emoji_passes"
  note wf = wf_table_emoji_passes
  obtain before where pre: "pre = before @ lastRun pre"
    and before: "before = [] \<or> isSpace (last before)"
    and run: "\<forall>c \<in> set (lastRun pre). \<not> isSpace c"
    by (rule lastRun_split)
  define r where "r = lastRun pre"
  from assms(1) obtain scheme body where u: "url = scheme @ body"
    and sch: "scheme = ascii ''http://'' \<or> scheme = ascii ''https://''"
    by (rule whole_match_parts)
  from u sch have hd: "url @ post = [] \<or> hd (url @ post) = 104" by auto
  then have "url @ post = [] \<or> \<not> isSecond (hd (url @ post))" by (auto simp: isSecond_def)
  with wf have 1: "?E (r @ url @ post) = ?E r @ ?E (url @ post)"
    by (rule emojify_append_right)
  from before have "before = [] \<or> \<not> isFirst (last before)" by (auto simp: space_not_first)
  with wf have 3: "?E (before @ t) = ?E before @ ?E t" for t
    by (rule emojify_append_left)
  have before': "?E before = [] \<or> isSpace (last (?E before))"
    using before emojify_last_space [OF wf, of before] by (cases "before = []") auto
  have n7: "\<not> js_includes (?E r) (ascii ''http://'')"
    using assms(2) emojify_includes [OF wf scheme_glyph_free(1), of r] by (auto simp: r_def)
  have n8: "\<not> js_includes (?E r) (ascii ''https://'')"
    using assms(3) emojify_includes [OF wf scheme_glyph_free(2), of r] by (auto simp: r_def)
  have whole: "formatMessageContent (url @ post)
               = anchor (?E url) @ formatMessageContent post"
    using formatMessageContent_url [OF assms(1) _ assms(4), of "[]"]
    by (simp add: formatMessageContent_def)
  have E_hd: "?E (url @ post) = [] \<or> hd (?E (url @ post)) = 104"
  proof -
    have "?E (url @ post) = scheme @ ?E (body @ post)"
      unfolding u append_assoc using sch by (rule emojify_scheme)
    with sch show ?thesis by auto
  qed
  have 4: "linkify (?E r @ ?E (url @ post)) = ?E r @ linkify (?E (url @ post))"
    using E_hd n7 n8 by (rule linkify_plain_run)
  have 5: "linkify (?E r) = ?E r"
    using linkify_plain_run [of "[]" "?E r"] n7 n8 by simp
  have "formatMessageContent (pre @ url @ post)
        = linkify (?E (before @ (r @ url @ post)))"
    by (subst pre) (simp add: formatMessageContent_emojify r_def)
  also have "\<dots> = linkify (?E before @ (?E r @ ?E (url @ post)))" by (simp only: 3 1)
  also have "\<dots> = linkify (?E before) @ linkify (?E r @ ?E (url @ post))"
    using before' by (rule linkify_append)
  also have "\<dots> = linkify (?E before) @ ?E r @ formatMessageContent (url @ post)"
    by (simp only: 4 formatMessageContent_emojify)
  finally have a: "formatMessageContent (pre @ url @ post)
        = linkify (?E before) @ ?E r @ anchor (?E url) @ formatMessageContent post"
    by (simp only: whole)
  have "formatMessageContent pre = linkify (?E (before @ r))"
    by (subst pre) (simp add: formatMessageContent_emojify r_def)
  also have "\<dots> = linkify (?E before @ ?E r)" by (simp only: 3)
  also have "\<dots> = linkify (?E before) @ linkify (?E r)"
    using before' by (rule linkify_append)
  finally have b: "formatMessageContent pre = linkify (?E before) @ ?E r" by (simp only: 5)
  from a b show ?thesis by simp
qed

text \<open>
  C4. For every text, \<open>formatMessageContent\<close> replaces every occurrence of \<open>:)\<close>, \<open>:(\<close>,
  \<open>:D\<close>, \<open>:|\<close> and \<open><3\<close> by its glyph, and the result does not depend on the order of the
  five passes: run in any order \<open>ps\<close>, the passes followed by the URL pass give what the
  function gives; what they compute is the one-scan substitution \<open>emojify\<close>; an
  occurrence \<open>a b\<close> of a pattern between any \<open>u\<close> and \<open>v\<close> is replaced by its glyph \<open>g\<close>;
  and the substituted text holds none of the five sequences any more.
\<close>

theorem emoticons_replaced_in_any_order:
  "(mset ps = mset emoji_passes \<longrightarrow>
      linkify (foldl (\<lambda>s (p, g). replace2 s p g) content ps) = formatMessageContent content)
   \<and> formatMessageContent content = linkify (emojify emoji_passes content)
   \<and> (((a, b), g) \<in> set emoji_passes \<longrightarrow>
        emojify emoji_passes (u @ [a, b] @ v)
        = emojify emoji_passes u @ g @ emojify emoji_passes v)
   \<and> \<not> hasEmoticon (emojify emoji_passes content)"
proof (intro conjI impI)
  assume "mset ps = mset emoji_passes"
  then show "linkify (foldl (\<lambda>s (p, g). replace2 s p g) content ps)
             = formatMessageContent content"
    by (simp add: passes_in_any_order formatMessageContent_emojify)
next
  show "formatMessageContent content = linkify (emojify emoji_passes content)"
    by (rule formatMessageContent_emojify)
next
  assume "((a, b), g) \<in> set emoji_passes"
  moreover have "distinct (map fst emoji_passes)" by (simp add: emoji_passes_def)
  ultimately have "map_of emoji_passes (a, b) = Some g" by simp
  with wf_table_emoji_passes
  have "emojify emoji_passes (u @ a # b # v)
        = emojify emoji_passes u @ g @ emojify emoji_passes v"
    by (rule emojify_occurrence)
  then show "emojify emoji_passes (u @ [a, b] @ v)
             = emojify emoji_passes u @ g @ emojify emoji_passes v"
    by simp
next
  show "\<not> hasEmoticon (emojify emoji_passes content)"
    by (rule emojify_no_emoticon)
qed

theorem emoticons_replaced_in_any_order_witness:
  "mset (rev emoji_passes) = mset emoji_passes
   \<and> linkify (foldl (\<lambda>s (p, g). replace2 s p g) (ascii ''a:):(b<3:D:|'') (rev emoji_passes))
     = formatMessageContent (ascii ''a:):(b<3:D:|'')
   \<and> formatMessageContent (ascii ''a:):(b<3:D:|'')
     = [97, 63743, 252, 242, 228, 63743, 252, 242, 251, 98, 8218, 249, 167, 212, 8719, 232,
        63743, 252, 242, 201, 63743, 252, 242, 234]
   \<and> ((58, 68), [63743, 252, 242, 201]) \<in> set emoji_passes
   \<and> emojify emoji_passes (ascii ''x:'' @ [58, 68] @ ascii ''D'')
     = ascii ''x:'' @ [63743, 252, 242, 201] @ ascii ''D''"
proof -
  have p: "mset (rev emoji_passes) = mset emoji_passes" by simp
  have mem: "((58, 68), [63743, 252, 242, 201]) \<in> set emoji_passes"
    by (simp add: emoji_passes_def)
  have v: "formatMessageContent (ascii ''a:):(b<3:D:|'')
           = [97, 63743, 252, 242, 228, 63743, 252, 242, 251, 98, 8218, 249, 167, 212, 8719,
              232, 63743, 252, 242, 201, 63743, 252, 242, 234]"
    by (simp add: formatMessageContent_def match_url_def url_scheme_def)
  have e: "emojify emoji_passes (ascii ''x:'') = ascii ''x:''"
    "emojify emoji_passes (ascii ''D'') = ascii ''D''"
    by (simp_all add: emoji_passes_def)
  note t = emoticons_replaced_in_any_order
    [of "rev emoji_passes" "ascii ''a:):(b<3:D:|''" 58 68 "[63743, 252, 242, 201]"
        "ascii ''x:''" "ascii ''D''"]
  from t p have 1: "linkify (foldl (\<lambda>s (p, g). replace2 s p g) (ascii ''a:):(b<3:D:|'')
                      (rev emoji_passes)) = formatMessageContent (ascii ''a:):(b<3:D:|'')"
    by blast
  from t mem have 2: "emojify emoji_passes (ascii ''x:'' @ [58, 68] @ ascii ''D'')
        = emojify emoji_passes (ascii ''x:'') @ [63743, 252, 242, 201]
          @ emojify emoji_passes (ascii ''D'')"
    by blast
  from p 1 v mem 2 [unfolded e] show ?thesis by blast
qed

text \<open>
  C2 as the specification states it says that the anchor's target is the URL of the message
  text also when the URL holds an emoticon sequence. The emoticon passes run before the URL
  pass, so the URL \<open>http://a.b/:D\<close> is linked with the glyph in place of \<open>:D\<close>, and the
  rendered text does not contain the URL any more.
\<close>

theorem url_with_emoticon_counterexample:
  "match_url (ascii ''http://a.b/:D'') = Some (ascii ''http://a.b/:D'', [])
   \<and> formatMessageContent (ascii ''http://a.b/:D'')
     = anchor (ascii ''http://a.b/'' @ [63743, 252, 242, 201])
   \<and> \<not> js_includes (formatMessageContent (ascii ''http://a.b/:D'')) (ascii ''http://a.b/:D'')"
  by (simp add: formatMessageContent_def match_url_def url_scheme_def isSpace_def anchor_def)

text \<open>
  C2, amended. Let \<open>url\<close> be a text that the URL pattern matches as a whole, standing in
  a message before white space or at its end, behind a text \<open>pre\<close> whose last run of code
  units without white space holds no \<open>http://\<close> and no \<open>https://\<close> (a match that starts
  there would take the URL in). Then \<open>formatMessageContent\<close> wraps it in one anchor whose
  target and label are the URL after the emoticon substitution; the text before and the
  text behind are rendered on their own. When the URL holds none of the emoticon sequences,
  the target is the URL exactly.
\<close>

theorem url_wrapped_in_anchor:
  assumes "match_url url = Some (url, [])"
    and "\<not> js_includes (lastRun pre) (ascii ''http://'')"
    and "\<not> js_includes (lastRun pre) (ascii ''https://'')"
    and "post = [] \<or> isSpace (hd post)"
  shows "formatMessageContent (pre @ url @ post)
           = formatMessageContent pre @ anchor (emojify emoji_passes url)
             @ formatMessageContent post
         \<and> (\<not> hasEmoticon url \<longrightarrow>
              formatMessageContent (pre @ url @ post)
              = formatMessageContent pre @ anchor url @ formatMessageContent post)"
  using formatMessageContent_url_run [OF assms] emojify_without_emoticon [of url] by simp

theorem url_wrapped_in_anchor_witness:
  "match_url (ascii ''https://a.b/c?d=1'') = Some (ascii ''https://a.b/c?d=1'', [])
   \<and> \<not> hasEmoticon (ascii ''https://a.b/c?d=1'')
   \<and> lastRun (ascii ''so (see:'') = ascii ''(see:''
   \<and> formatMessageContent (ascii ''so (see:'' @ ascii ''https://a.b/c?d=1'' @ ascii '' :)'')
     = ascii ''so (see:'' @ anchor (ascii ''https://a.b/c?d=1'') @ [32, 63743, 252, 242, 228]"
proof -
  have m: "match_url (ascii ''https://a.b/c?d=1'') = Some (ascii ''https://a.b/c?d=1'', [])"
    by (simp add: match_url_def url_scheme_def isSpace_def)
  have r: "lastRun (ascii ''so (see:'') = ascii ''(see:''"
    by (simp add: lastRun_def isSpace_def)
  have n7: "\<not> js_includes (lastRun (ascii ''so (see:'')) (ascii ''http://'')"
    unfolding r by simp
  have n8: "\<not> js_includes (lastRun (ascii ''so (see:'')) (ascii ''https://'')"
    unfolding r by simp
  have post: "ascii '' :)'' = [] \<or> isSpace (hd (ascii '' :)''))"
    by (simp add: isSpace_def)
  have e: "\<not> hasEmoticon (ascii ''https://a.b/c?d=1'')"
    by (simp add: hasEmoticon_def emoji_passes_def)
  have 1: "formatMessageContent (ascii ''so (see:'') = ascii ''so (see:''"
    by (simp add: formatMessageContent_def match_url_def url_scheme_def)
  have 2: "formatMessageContent (ascii '' :)'') = [32, 63743, 252, 242, 228]"
    by (simp add: formatMessageContent_def match_url_def url_scheme_def)
  from url_wrapped_in_anchor [OF m n7 n8 post] e
  have "formatMessageContent (ascii ''so (see:'' @ ascii ''https://a.b/c?d=1'' @ ascii '' :)'')
        = formatMessageContent (ascii ''so (see:'') @ anchor (ascii ''https://a.b/c?d=1'')
          @ formatMessageContent (ascii '' :)'')"
    by blast
  then have "formatMessageContent (ascii ''so (see:'' @ ascii ''https://a.b/c?d=1'' @ ascii '' :)'')
        = ascii ''so (see:'' @ anchor (ascii ''https://a.b/c?d=1'') @ [32, 63743, 252, 242, 228]"
    unfolding 1 2 .
  with m e r show ?thesis by blast
qed

section \<open>Properties of the meeting room\<close>

subsection \<open>sendMessage\<close>

lemma trim_Nil_iff: "trim v = [] \<longleftrightarrow> (\<forall>c \<in> set v. isSpace c)"
proof -
  have "trim v = [] \<longleftrightarrow> (\<forall>c \<in> set (dropWhile isSpace v). isSpace c)"
    by (simp add: trim_def dropWhile_eq_Nil_conv)
  also have "\<dots> \<longleftrightarrow> dropWhile isSpace v = []"
  proof
    assume all: "\<forall>c \<in> set (dropWhile isSpace v). isSpace c"
    show "dropWhile isSpace v = []"
    proof (rule ccontr)
      assume ne: "dropWhile isSpace v \<noteq> []"
      then have "\<not> isSpace (hd (dropWhile isSpace v))" by (rule hd_dropWhile)
      moreover from ne have "hd (dropWhile isSpace v) \<in> set (dropWhile isSpace v)" by simp
      ultimately show False using all by blast
    qed
  next
    assume e: "dropWhile isSpace v = []"
    show "\<forall>c \<in> set (dropWhile isSpace v). isSpace c" unfolding e by simp
  qed
  also have "\<dots> \<longleftrightarrow> (\<forall>c \<in> set v. isSpace c)"
    by (simp add: dropWhile_eq_Nil_conv)
  finally show ?thesis .
qed

lemma trim_decompose:
  "\<exists>l r. v = l @ trim v @ r \<and> (\<forall>c \<in> set l. isSpace c) \<and> (\<forall>c \<in> set r. isSpace c)"
proof -
  let ?w = "dropWhile isSpace v"
  let ?l = "takeWhile isSpace v"
  let ?r = "rev (takeWhile isSpace (rev ?w))"
  have "rev (takeWhile isSpace (rev ?w) @ dropWhile isSpace (rev ?w)) = ?w"
    by (simp only: takeWhile_dropWhile_id rev_rev_ident)
  then have "rev (dropWhile isSpace (rev ?w)) @ ?r = ?w"
    by (simp only: rev_append)
  then have w: "?w = trim v @ ?r" unfolding trim_def by (rule sym)
  have "v = ?l @ ?w" by simp
  with w have "v = ?l @ trim v @ ?r" by simp
  moreover have "\<forall>c \<in> set ?l. isSpace c" by (auto dest: set_takeWhileD)
  moreover have "\<forall>c \<in> set ?r. isSpace c" by (auto dest: set_takeWhileD)
  ultimately show ?thesis by blast
qed

lemma trim_ends:
  assumes "trim v \<noteq> []"
  shows "\<not> isSpace (hd (trim v)) \<and> \<not> isSpace (last (trim v))"
proof -
  let ?w = "dropWhile isSpace v"
  let ?d = "dropWhile isSpace (rev ?w)"
  from assms have d: "?d \<noteq> []" by (simp add: trim_def)
  have w: "?w \<noteq> []"
  proof
    assume "?w = []"
    with d show False by simp
  qed
  from d have "\<not> isSpace (hd ?d)" by (rule hd_dropWhile)
  then have last: "\<not> isSpace (last (trim v))" using d by (simp add: trim_def last_rev)
  have "takeWhile isSpace (rev ?w) @ ?d = rev ?w" by simp
  with d have "last ?d = last (rev ?w)" by (metis last_appendR)
  with w have "last ?d = hd ?w" by (simp add: last_rev)
  moreover from w have "\<not> isSpace (hd ?w)" by (rule hd_dropWhile)
  ultimately have "\<not> isSpace (hd (trim v))" using d by (simp add: trim_def hd_rev)
  with last show ?thesis by simp
qed

text \<open>
  C8. With the message box on the page and the socket open: when the box is empty or holds
  white space only, \<open>sendMessage\<close> changes neither the controller nor the page, so that no
  event is emitted and the box keeps its value; otherwise it emits one \<open>send_message\<close> event
  with the meeting id and the trimmed text and empties the box in the same call. The trimmed
  text is the value without the white space at its two ends.
\<close>

theorem sendMessage_emits_trimmed:
  assumes "messageInput p = Some v" and "socket this = Some out"
  shows "((\<forall>c \<in> set v. isSpace c) \<longrightarrow> sendMessage this p = Inr (this, p))
       \<and> ((\<exists>c \<in> set v. \<not> isSpace c) \<longrightarrow>
            sendMessage this p =
              Inr (this\<lparr>socket := Some (out @ [send_message (meetingId this) (trim v)])\<rparr>,
                   p\<lparr>messageInput := Some []\<rparr>))
       \<and> (\<exists>l r. v = l @ trim v @ r \<and> (\<forall>c \<in> set l. isSpace c) \<and> (\<forall>c \<in> set r. isSpace c))
       \<and> (trim v \<noteq> [] \<longrightarrow> \<not> isSpace (hd (trim v)) \<and> \<not> isSpace (last (trim v)))"
proof (intro conjI impI)
  assume "\<forall>c \<in> set v. isSpace c"
  then have "trim v = []" by (simp add: trim_Nil_iff)
  with assms show "sendMessage this p = Inr (this, p)" by (simp add: sendMessage_def)
next
  assume "\<exists>c \<in> set v. \<not> isSpace c"
  then have "trim v \<noteq> []" by (simp add: trim_Nil_iff)
  with assms show "sendMessage this p =
      Inr (this\<lparr>socket := Some (out @ [send_message (meetingId this) (trim v)])\<rparr>,
           p\<lparr>messageInput := Some []\<rparr>)"
    by (simp add: sendMessage_def)
next
  show "\<exists>l r. v = l @ trim v @ r \<and> (\<forall>c \<in> set l. isSpace c) \<and> (\<forall>c \<in> set r. isSpace c)"
    by (rule trim_decompose)
next
  assume "trim v \<noteq> []"
  then show "\<not> isSpace (hd (trim v))" by (simp add: trim_ends)
next
  assume "trim v \<noteq> []"
  then show "\<not> isSpace (last (trim v))" by (simp add: trim_ends)
qed

theorem sendMessage_emits_trimmed_witness:
  "sendMessage exampleRoom (examplePage\<lparr>messageInput := Some (ascii '' hi  there  '')\<rparr>)
     = Inr (exampleRoom\<lparr>socket := Some [send_message (ascii ''123-456-7890'') (ascii ''hi  there'')]\<rparr>,
            examplePage\<lparr>messageInput := Some []\<rparr>)
   \<and> sendMessage exampleRoom (examplePage\<lparr>messageInput := Some (ascii ''   '')\<rparr>)
     = Inr (exampleRoom, examplePage\<lparr>messageInput := Some (ascii ''   '')\<rparr>)"
proof -
  have s: "socket exampleRoom = Some []" by (simp add: exampleRoom_def)
  have t: "trim (ascii '' hi  there  '') = ascii ''hi  there''"
    by (simp add: trim_def isSpace_def)
  have m: "meetingId exampleRoom = ascii ''123-456-7890''" by (simp add: exampleRoom_def)
  have 1: "\<exists>c \<in> set (ascii '' hi  there  ''). \<not> isSpace c" by (simp add: isSpace_def)
  have 2: "\<forall>c \<in> set (ascii ''   ''). isSpace c" by (simp add: isSpace_def)
  from sendMessage_emits_trimmed
    [of "examplePage\<lparr>messageInput := Some (ascii '' hi  there  '')\<rparr>" "ascii '' hi  there  ''"
        exampleRoom "[]"] s 1
  have a: "sendMessage exampleRoom (examplePage\<lparr>messageInput := Some (ascii '' hi  there  '')\<rparr>)
     = Inr (exampleRoom\<lparr>socket := Some ([] @ [send_message (meetingId exampleRoom)
              (trim (ascii '' hi  there  ''))])\<rparr>,
            examplePage\<lparr>messageInput := Some (ascii '' hi  there  ''), messageInput := Some []\<rparr>)"
    by simp
  from sendMessage_emits_trimmed
    [of "examplePage\<lparr>messageInput := Some (ascii ''   '')\<rparr>" "ascii ''   ''" exampleRoom "[]"] s 2
  have b: "sendMessage exampleRoom (examplePage\<lparr>messageInput := Some (ascii ''   '')\<rparr>)
     = Inr (exampleRoom, examplePage\<lparr>messageInput := Some (ascii ''   '')\<rparr>)"
    by simp
  from a b show ?thesis unfolding t m by simp
qed

subsection \<open>toggleCamera and toggleMicrophone\<close>

lemma list_of_two: "length xs = 2 \<Longrightarrow> xs = [xs ! 0, xs ! 1]"
proof -
  assume "length xs = 2"
  then obtain a b where "xs = [a, b]"
    by (cases xs; cases "tl xs") auto
  then show ?thesis by simp
qed

lemma setFirstEnabled_length: "length (setFirstEnabled k v s) = length s"
  by (induction s) simp_all

lemma setFirstEnabled_nth:
  "i < length s \<Longrightarrow>
   setFirstEnabled k v s ! i =
     (if kind (s ! i) = k \<and> (\<forall>t \<in> set (take i s). kind t \<noteq> k)
      then (s ! i)\<lparr>enabled := v\<rparr> else s ! i)"
proof (induction s arbitrary: i)
  case Nil
  then show ?case by simp
next
  case (Cons t ts)
  show ?case
  proof (cases i)
    case 0
    then show ?thesis by simp
  next
    case (Suc n)
    with Cons.prems have n: "n < length ts" by simp
    from Cons.IH [OF n] Suc show ?thesis by simp
  qed
qed

lemma setFirstEnabled_none:
  "filter (\<lambda>t. kind t = k) s = [] \<Longrightarrow> setFirstEnabled k v s = s"
  by (induction s) (simp_all split: if_splits)

lemma setFirstEnabled_other_kind:
  "k' \<noteq> k \<Longrightarrow> filter (\<lambda>t. kind t = k') (setFirstEnabled k v s) = filter (\<lambda>t. kind t = k') s"
  by (induction s) simp_all

lemma setFirstEnabled_single:
  "length (filter (\<lambda>t. kind t = k) s) \<le> 1 \<Longrightarrow>
   \<forall>t \<in> set (filter (\<lambda>t. kind t = k) (setFirstEnabled k v s)). enabled t = v"
proof (induction s)
  case Nil
  then show ?case by simp
next
  case (Cons t ts)
  show ?case
  proof (cases "kind t = k")
    case True
    with Cons.prems have "filter (\<lambda>t. kind t = k) ts = []" by simp
    with True show ?thesis by simp
  next
    case False
    with Cons show ?thesis by simp
  qed
qed

lemma toggleCamera_Some:
  assumes "localStream this = Some s" and "socket this = Some out"
  shows "toggleCamera this p =
           Inr (this\<lparr>isCameraOn := \<not> isCameraOn this,
                     localStream := Some (setFirstEnabled video (\<not> isCameraOn this) s),
                     socket := Some (out @ [toggle_camera (meetingId this) (\<not> isCameraOn this)])\<rparr>,
                showNotification
                  (ascii ''Camera ''
                   @ (if \<not> isCameraOn this then ascii ''enabled'' else ascii ''disabled''))
                  ''info''
                  (updateControlButtons
                     (this\<lparr>isCameraOn := \<not> isCameraOn this,
                           localStream := Some (setFirstEnabled video (\<not> isCameraOn this) s)\<rparr>) p))"
proof -
  have "(case getVideoTracks s of [] \<Rightarrow> s | videoTrack # _ \<Rightarrow> setFirstEnabled video b s)
        = setFirstEnabled video b s" for b
    by (cases "getVideoTracks s") (simp_all add: getVideoTracks_def setFirstEnabled_none)
  with assms show ?thesis by (simp add: toggleCamera_def Let_def)
qed

lemma toggleMicrophone_Some:
  assumes "localStream this = Some s" and "socket this = Some out"
  shows "toggleMicrophone this p =
           Inr (this\<lparr>isMicrophoneOn := \<not> isMicrophoneOn this,
                     localStream := Some (setFirstEnabled audio (\<not> isMicrophoneOn this) s),
                     socket := Some (out @ [toggle_microphone (meetingId this)
                                              (\<not> isMicrophoneOn this)])\<rparr>,
                showNotification
                  (ascii ''Microphone ''
                   @ (if \<not> isMicrophoneOn this then ascii ''enabled'' else ascii ''disabled''))
                  ''info''
                  (updateControlButtons
                     (this\<lparr>isMicrophoneOn := \<not> isMicrophoneOn this,
                           localStream := Some (setFirstEnabled audio (\<not> isMicrophoneOn this) s)\<rparr>)
                     p))"
proof -
  have "(case getAudioTracks s of [] \<Rightarrow> s | audioTrack # _ \<Rightarrow> setFirstEnabled audio b s)
        = setFirstEnabled audio b s" for b
    by (cases "getAudioTracks s") (simp_all add: getAudioTracks_def setFirstEnabled_none)
  with assms show ?thesis by (simp add: toggleMicrophone_def Let_def)
qed

text \<open>
  On any local stream, with an open socket: \<open>toggleCamera\<close> with the camera on disables
  the first video track (\<open>getVideoTracks()[0]\<close>) and changes no other track;
  \<open>toggleMicrophone\<close> does the same with the first audio track.
\<close>

lemma toggle_first_track:
  assumes "localStream this = Some s" and "socket this = Some out"
  shows "(isCameraOn this \<longrightarrow>
           (\<exists>this' p' s'. toggleCamera this p = Inr (this', p') \<and> localStream this' = Some s'
              \<and> length s' = length s
              \<and> (\<forall>i < length s.
                    s' ! i = (if kind (s ! i) = video \<and> (\<forall>t \<in> set (take i s). kind t \<noteq> video)
                              then (s ! i)\<lparr>enabled := False\<rparr> else s ! i))
              \<and> getAudioTracks s' = getAudioTracks s
              \<and> (length (getVideoTracks s) \<le> 1 \<longrightarrow>
                   (\<forall>t \<in> set (getVideoTracks s'). \<not> enabled t))))
       \<and> (isMicrophoneOn this \<longrightarrow>
           (\<exists>this' p' s'. toggleMicrophone this p = Inr (this', p') \<and> localStream this' = Some s'
              \<and> length s' = length s
              \<and> (\<forall>i < length s.
                    s' ! i = (if kind (s ! i) = audio \<and> (\<forall>t \<in> set (take i s). kind t \<noteq> audio)
                              then (s ! i)\<lparr>enabled := False\<rparr> else s ! i))
              \<and> getVideoTracks s' = getVideoTracks s
              \<and> (length (getAudioTracks s) \<le> 1 \<longrightarrow>
                   (\<forall>t \<in> set (getAudioTracks s'). \<not> enabled t))))"
proof (intro conjI impI)
  assume on: "isCameraOn this"
  let ?s' = "setFirstEnabled video False s"
  from on have "toggleCamera this p =
      Inr (this\<lparr>isCameraOn := False, localStream := Some ?s',
                socket := Some (out @ [toggle_camera (meetingId this) False])\<rparr>,
           showNotification (ascii ''Camera '' @ ascii ''disabled'') ''info''
             (updateControlButtons (this\<lparr>isCameraOn := False, localStream := Some ?s'\<rparr>) p))"
    using toggleCamera_Some [OF assms, of p] by simp
  moreover have "length ?s' = length s" by (rule setFirstEnabled_length)
  moreover have "\<forall>i < length s.
      ?s' ! i = (if kind (s ! i) = video \<and> (\<forall>t \<in> set (take i s). kind t \<noteq> video)
                 then (s ! i)\<lparr>enabled := False\<rparr> else s ! i)"
    by (simp add: setFirstEnabled_nth)
  moreover have "getAudioTracks ?s' = getAudioTracks s"
    unfolding getAudioTracks_def by (rule setFirstEnabled_other_kind) simp
  moreover have "length (getVideoTracks s) \<le> 1 \<longrightarrow> (\<forall>t \<in> set (getVideoTracks ?s'). \<not> enabled t)"
    unfolding getVideoTracks_def using setFirstEnabled_single [of video s False] by simp
  ultimately show "\<exists>this' p' s'. toggleCamera this p = Inr (this', p') \<and> localStream this' = Some s'
      \<and> length s' = length s
      \<and> (\<forall>i < length s.
            s' ! i = (if kind (s ! i) = video \<and> (\<forall>t \<in> set (take i s). kind t \<noteq> video)
                      then (s ! i)\<lparr>enabled := False\<rparr> else s ! i))
      \<and> getAudioTracks s' = getAudioTracks s
      \<and> (length (getVideoTracks s) \<le> 1 \<longrightarrow> (\<forall>t \<in> set (getVideoTracks s'). \<not> enabled t))"
    by simp
next
  assume on: "isMicrophoneOn this"
  let ?s' = "setFirstEnabled audio False s"
  from on have "toggleMicrophone this p =
      Inr (this\<lparr>isMicrophoneOn := False, localStream := Some ?s',
                socket := Some (out @ [toggle_microphone (meetingId this) False])\<rparr>,
           showNotification (ascii ''Microphone '' @ ascii ''disabled'') ''info''
             (updateControlButtons (this\<lparr>isMicrophoneOn := False, localStream := Some ?s'\<rparr>) p))"
    using toggleMicrophone_Some [OF assms, of p] by simp
  moreover have "length ?s' = length s" by (rule setFirstEnabled_length)
  moreover have "\<forall>i < length s.
      ?s' ! i = (if kind (s ! i) = audio \<and> (\<forall>t \<in> set (take i s). kind t \<noteq> audio)
                 then (s ! i)\<lparr>enabled := False\<rparr> else s ! i)"
    by (simp add: setFirstEnabled_nth)
  moreover have "getVideoTracks ?s' = getVideoTracks s"
    unfolding getVideoTracks_def by (rule setFirstEnabled_other_kind) simp
  moreover have "length (getAudioTracks s) \<le> 1 \<longrightarrow> (\<forall>t \<in> set (getAudioTracks ?s'). \<not> enabled t)"
    unfolding getAudioTracks_def using setFirstEnabled_single [of audio s False] by simp
  ultimately show "\<exists>this' p' s'. toggleMicrophone this p = Inr (this', p') \<and> localStream this' = Some s'
      \<and> length s' = length s
      \<and> (\<forall>i < length s.
            s' ! i = (if kind (s ! i) = audio \<and> (\<forall>t \<in> set (take i s). kind t \<noteq> audio)
                      then (s ! i)\<lparr>enabled := False\<rparr> else s ! i))
      \<and> getVideoTracks s' = getVideoTracks s
      \<and> (length (getAudioTracks s) \<le> 1 \<longrightarrow> (\<forall>t \<in> set (getAudioTracks s'). \<not> enabled t))"
    by simp
qed

lemma single_is_first:
  assumes "length (filter P s) \<le> 1" and "i < length s" and "P (s ! i)"
  shows "\<forall>t \<in> set (take i s). \<not> P t"
proof -
  from assms(2) have "s = take i s @ s ! i # drop (Suc i) s" by (rule id_take_nth_drop)
  then have "filter P s = filter P (take i s) @ filter P (s ! i # drop (Suc i) s)"
    by (metis filter_append)
  with assms(3) have "length (filter P s) = length (filter P (take i s)) + 1
      + length (filter P (drop (Suc i) s))" by simp
  with assms(1) have "filter P (take i s) = []" by simp
  then show ?thesis by (simp add: filter_empty_conv)
qed

text \<open>
  C5. The local stream \<open>s\<close> is a stream of \<open>getUserMedia\<close>, and the socket is open, as the
  constructor leaves it. Then \<open>toggleCamera\<close> with the camera on disables the video tracks
  of the stream and nothing else: every track of another kind is as before, so the audio
  tracks are. \<open>toggleMicrophone\<close> with the microphone on does the same with the audio
  tracks, and leaves the video tracks.
\<close>

theorem toggle_disables_tracks_of_kind:
  assumes "localStream this = Some s" and "userMedia s" and "socket this = Some out"
  shows "(isCameraOn this \<longrightarrow>
           (\<exists>this' p' s'. toggleCamera this p = Inr (this', p') \<and> localStream this' = Some s'
              \<and> length s' = length s
              \<and> (\<forall>i < length s.
                    s' ! i = (if kind (s ! i) = video then (s ! i)\<lparr>enabled := False\<rparr> else s ! i))
              \<and> (\<forall>t \<in> set (getVideoTracks s'). \<not> enabled t)
              \<and> getAudioTracks s' = getAudioTracks s))
       \<and> (isMicrophoneOn this \<longrightarrow>
           (\<exists>this' p' s'. toggleMicrophone this p = Inr (this', p') \<and> localStream this' = Some s'
              \<and> length s' = length s
              \<and> (\<forall>i < length s.
                    s' ! i = (if kind (s ! i) = audio then (s ! i)\<lparr>enabled := False\<rparr> else s ! i))
              \<and> (\<forall>t \<in> set (getAudioTracks s'). \<not> enabled t)
              \<and> getVideoTracks s' = getVideoTracks s))"
proof (intro conjI impI)
  from assms(2) have v1: "length (filter (\<lambda>t. kind t = video) s) \<le> 1"
    by (simp add: userMedia_def getVideoTracks_def)
  assume on: "isCameraOn this"
  with toggle_first_track [OF assms(1,3), of p] v1
  obtain this' p' s' where r: "toggleCamera this p = Inr (this', p')"
    and l: "localStream this' = Some s'" and n: "length s' = length s"
    and e: "\<forall>i < length s.
              s' ! i = (if kind (s ! i) = video \<and> (\<forall>t \<in> set (take i s). kind t \<noteq> video)
                        then (s ! i)\<lparr>enabled := False\<rparr> else s ! i)"
    and a: "getAudioTracks s' = getAudioTracks s"
    and d: "\<forall>t \<in> set (getVideoTracks s'). \<not> enabled t"
    unfolding getVideoTracks_def by blast
  have "\<forall>i < length s.
          s' ! i = (if kind (s ! i) = video then (s ! i)\<lparr>enabled := False\<rparr> else s ! i)"
  proof (intro allI impI)
    fix i assume i: "i < length s"
    show "s' ! i = (if kind (s ! i) = video then (s ! i)\<lparr>enabled := False\<rparr> else s ! i)"
    proof (cases "kind (s ! i) = video")
      case True
      with v1 i have "\<forall>t \<in> set (take i s). kind t \<noteq> video" by (rule single_is_first)
      with e i True show ?thesis by simp
    next
      case False
      with e i show ?thesis by simp
    qed
  qed
  with r l n a d
  show "\<exists>this' p' s'. toggleCamera this p = Inr (this', p') \<and> localStream this' = Some s'
      \<and> length s' = length s
      \<and> (\<forall>i < length s.
            s' ! i = (if kind (s ! i) = video then (s ! i)\<lparr>enabled := False\<rparr> else s ! i))
      \<and> (\<forall>t \<in> set (getVideoTracks s'). \<not> enabled t)
      \<and> getAudioTracks s' = getAudioTracks s"
    by blast
next
  from assms(2) have a1: "length (filter (\<lambda>t. kind t = audio) s) \<le> 1"
    by (simp add: userMedia_def getAudioTracks_def)
  assume on: "isMicrophoneOn this"
  with toggle_first_track [OF assms(1,3), of p] a1
  obtain this' p' s' where r: "toggleMicrophone this p = Inr (this', p')"
    and l: "localStream this' = Some s'" and n: "length s' = length s"
    and e: "\<forall>i < length s.
              s' ! i = (if kind (s ! i) = audio \<and> (\<forall>t \<in> set (take i s). kind t \<noteq> audio)
                        then (s ! i)\<lparr>enabled := False\<rparr> else s ! i)"
    and a: "getVideoTracks s' = getVideoTracks s"
    and d: "\<forall>t \<in> set (getAudioTracks s'). \<not> enabled t"
    unfolding getAudioTracks_def by blast
  have "\<forall>i < length s.
          s' ! i = (if kind (s ! i) = audio then (s ! i)\<lparr>enabled := False\<rparr> else s ! i)"
  proof (intro allI impI)
    fix i assume i: "i < length s"
    show "s' ! i = (if kind (s ! i) = audio then (s ! i)\<lparr>enabled := False\<rparr> else s ! i)"
    proof (cases "kind (s ! i) = audio")
      case True
      with a1 i have "\<forall>t \<in> set (take i s). kind t \<noteq> audio" by (rule single_is_first)
      with e i True show ?thesis by simp
    next
      case False
      with e i show ?thesis by simp
    qed
  qed
  with r l n a d
  show "\<exists>this' p' s'. toggleMicrophone this p = Inr (this', p') \<and> localStream this' = Some s'
      \<and> length s' = length s
      \<and> (\<forall>i < length s.
            s' ! i = (if kind (s ! i) = audio then (s ! i)\<lparr>enabled := False\<rparr> else s ! i))
      \<and> (\<forall>t \<in> set (getAudioTracks s'). \<not> enabled t)
      \<and> getVideoTracks s' = getVideoTracks s"
    by blast
qed

theorem toggle_disables_tracks_of_kind_witness:
  "localStream exampleRoom
     = Some [\<lparr>kind = video, enabled = True, ended = False, stopCalls = 0\<rparr>,
             \<lparr>kind = audio, enabled = True, ended = False, stopCalls = 0\<rparr>]
   \<and> userMedia [\<lparr>kind = video, enabled = True, ended = False, stopCalls = 0\<rparr>,
                \<lparr>kind = audio, enabled = True, ended = False, stopCalls = 0\<rparr>]
   \<and> socket exampleRoom = Some [] \<and> isCameraOn exampleRoom \<and> isMicrophoneOn exampleRoom
   \<and> map_sum id (localStream \<circ> fst) (toggleCamera exampleRoom examplePage)
     = Inr (Some [\<lparr>kind = video, enabled = False, ended = False, stopCalls = 0\<rparr>,
                  \<lparr>kind = audio, enabled = True, ended = False, stopCalls = 0\<rparr>])
   \<and> map_sum id (localStream \<circ> fst) (toggleMicrophone exampleRoom examplePage)
     = Inr (Some [\<lparr>kind = video, enabled = True, ended = False, stopCalls = 0\<rparr>,
                  \<lparr>kind = audio, enabled = False, ended = False, stopCalls = 0\<rparr>])"
proof -
  let ?v = "\<lparr>kind = video, enabled = True, ended = False, stopCalls = 0\<rparr>"
  let ?a = "\<lparr>kind = audio, enabled = True, ended = False, stopCalls = 0\<rparr>"
  have s: "localStream exampleRoom = Some [?v, ?a]" by (simp add: exampleRoom_def)
  have u: "userMedia [?v, ?a]" by (simp add: userMedia_def getVideoTracks_def getAudioTracks_def)
  have o: "socket exampleRoom = Some []" by (simp add: exampleRoom_def)
  have c: "isCameraOn exampleRoom" and m: "isMicrophoneOn exampleRoom"
    by (simp_all add: exampleRoom_def)
  note t = toggle_disables_tracks_of_kind [OF s u o, of examplePage]
  from t c obtain this1 p1 s1 where
    r1: "toggleCamera exampleRoom examplePage = Inr (this1, p1)"
    and l1: "localStream this1 = Some s1" and n1: "length s1 = length [?v, ?a]"
    and e1: "\<forall>i < length [?v, ?a].
              s1 ! i = (if kind ([?v, ?a] ! i) = video
                        then ([?v, ?a] ! i)\<lparr>enabled := False\<rparr> else [?v, ?a] ! i)"
    by blast
  from e1 have "s1 ! 0 = ?v\<lparr>enabled := False\<rparr>" and "s1 ! 1 = ?a" by simp_all
  with n1 list_of_two [of s1] have s1: "s1 = [?v\<lparr>enabled := False\<rparr>, ?a]" by simp
  from t m obtain this2 p2 s2 where
    r2: "toggleMicrophone exampleRoom examplePage = Inr (this2, p2)"
    and l2: "localStream this2 = Some s2" and n2: "length s2 = length [?v, ?a]"
    and e2: "\<forall>i < length [?v, ?a].
              s2 ! i = (if kind ([?v, ?a] ! i) = audio
                        then ([?v, ?a] ! i)\<lparr>enabled := False\<rparr> else [?v, ?a] ! i)"
    by blast
  from e2 have "s2 ! 0 = ?v" and "s2 ! 1 = ?a\<lparr>enabled := False\<rparr>" by simp_all
  with n2 list_of_two [of s2] have s2: "s2 = [?v, ?a\<lparr>enabled := False\<rparr>]" by simp
  from s u o c m r1 l1 s1 r2 l2 s2 show ?thesis by simp
qed

text \<open>
  C10. Without a local stream, \<open>toggleCamera\<close> and \<open>toggleMicrophone\<close> return the
  controller as it was: the flags \<open>isCameraOn\<close> and \<open>isMicrophoneOn\<close> keep their values and
  the socket has no new event. The page gets the notification that the device is not
  available, and nothing else.
\<close>

theorem toggle_without_stream_is_noop:
  assumes "localStream this = None"
  shows "toggleCamera this p
           = Inr (this, showNotification (ascii ''Camera not available'') ''error'' p)
       \<and> toggleMicrophone this p
           = Inr (this, showNotification (ascii ''Microphone not available'') ''error'' p)"
  using assms by (simp add: toggleCamera_def toggleMicrophone_def)

theorem toggle_without_stream_is_noop_witness:
  "localStream (exampleRoom\<lparr>localStream := None, isCameraOn := False, isMicrophoneOn := False\<rparr>)
     = None
   \<and> map_sum id fst
       (toggleCamera
          (exampleRoom\<lparr>localStream := None, isCameraOn := False, isMicrophoneOn := False\<rparr>)
          examplePage)
     = Inr (exampleRoom\<lparr>localStream := None, isCameraOn := False, isMicrophoneOn := False\<rparr>)
   \<and> map_sum id fst
       (toggleMicrophone
          (exampleRoom\<lparr>localStream := None, isCameraOn := False, isMicrophoneOn := False\<rparr>)
          examplePage)
     = Inr (exampleRoom\<lparr>localStream := None, isCameraOn := False, isMicrophoneOn := False\<rparr>)"
proof -
  let ?room = "exampleRoom\<lparr>localStream := None, isCameraOn := False, isMicrophoneOn := False\<rparr>"
  have n: "localStream ?room = None" by simp
  from toggle_without_stream_is_noop [OF n, of examplePage] n show ?thesis by simp
qed

subsection \<open>leaveMeeting\<close>

lemma leaveMeeting_localStream:
  "localStream (fst (leaveMeeting this p)) = map_option (map stop) (localStream this)"
  by (simp add: leaveMeeting_def Let_def split: option.splits)

lemma leaveMeeting_screenStream:
  "screenStream (fst (leaveMeeting this p)) = map_option (map stop) (screenStream this)"
  by (simp add: leaveMeeting_def Let_def split: option.splits)

lemma leaveMeeting_timers:
  "timerInterval this = Some h \<Longrightarrow> 0 < h \<Longrightarrow>
   timers (snd (leaveMeeting this p)) = filter (\<lambda>e. fst e \<noteq> h) (timers p)"
  by (simp add: leaveMeeting_def Let_def clearInterval_def split: option.splits)

text \<open>\<open>startTimer\<close> stores a positive handle, under which the tick is registered.\<close>

lemma startTimer_handle:
  "timerInterval (fst (startTimer this p)) = Some (Suc (lastHandle p))
   \<and> (Suc (lastHandle p), Interval update_timer 1000) \<in> set (timers (snd (startTimer this p)))"
  by (simp add: startTimer_def setInterval_def Let_def)

text \<open>
  C6. \<open>leaveMeeting\<close> stops every track of the local stream and every track of the
  screen-share stream, when the stream exists: each track has ended and has one call of
  \<open>stop\<close> more than before. The interval of the elapsed-time display (the positive handle
  that \<open>startTimer\<close> stored) is not registered afterwards, so that its tick leaves the page
  as it is.
\<close>

theorem leaveMeeting_stops_tracks_and_timer:
  "(\<forall>s. localStream this = Some s \<longrightarrow>
      (\<exists>s'. localStream (fst (leaveMeeting this p)) = Some s' \<and> length s' = length s
         \<and> (\<forall>i < length s. s' ! i = (s ! i)\<lparr>ended := True, stopCalls := stopCalls (s ! i) + 1\<rparr>)))
   \<and> (\<forall>s. screenStream this = Some s \<longrightarrow>
      (\<exists>s'. screenStream (fst (leaveMeeting this p)) = Some s' \<and> length s' = length s
         \<and> (\<forall>i < length s. s' ! i = (s ! i)\<lparr>ended := True, stopCalls := stopCalls (s ! i) + 1\<rparr>)))
   \<and> (\<forall>h. timerInterval this = Some h \<and> 0 < h \<longrightarrow>
        h \<notin> fst ` set (timers (snd (leaveMeeting this p)))
        \<and> (\<forall>now. timerTick h (fst (leaveMeeting this p)) now (snd (leaveMeeting this p))
                  = Inr (snd (leaveMeeting this p))))"
proof (intro conjI allI impI)
  fix s assume "localStream this = Some s"
  then have "localStream (fst (leaveMeeting this p)) = Some (map stop s)"
    by (simp add: leaveMeeting_localStream)
  then show "\<exists>s'. localStream (fst (leaveMeeting this p)) = Some s' \<and> length s' = length s
         \<and> (\<forall>i < length s. s' ! i = (s ! i)\<lparr>ended := True, stopCalls := stopCalls (s ! i) + 1\<rparr>)"
    by (simp add: stop_def)
next
  fix s assume "screenStream this = Some s"
  then have "screenStream (fst (leaveMeeting this p)) = Some (map stop s)"
    by (simp add: leaveMeeting_screenStream)
  then show "\<exists>s'. screenStream (fst (leaveMeeting this p)) = Some s' \<and> length s' = length s
         \<and> (\<forall>i < length s. s' ! i = (s ! i)\<lparr>ended := True, stopCalls := stopCalls (s ! i) + 1\<rparr>)"
    by (simp add: stop_def)
next
  fix h assume h: "timerInterval this = Some h \<and> 0 < h"
  then have t: "timers (snd (leaveMeeting this p)) = filter (\<lambda>e. fst e \<noteq> h) (timers p)"
    by (simp add: leaveMeeting_timers)
  then show "h \<notin> fst ` set (timers (snd (leaveMeeting this p)))" by auto
next
  fix h now assume h: "timerInterval this = Some h \<and> 0 < h"
  then have t: "timers (snd (leaveMeeting this p)) = filter (\<lambda>e. fst e \<noteq> h) (timers p)"
    by (simp add: leaveMeeting_timers)
  then show "timerTick h (fst (leaveMeeting this p)) now (snd (leaveMeeting this p))
             = Inr (snd (leaveMeeting this p))"
    by (simp add: timerTick_def)
qed

theorem leaveMeeting_stops_tracks_and_timer_witness:
  "startTimer exampleRoom examplePage
     = (exampleRoom\<lparr>timerInterval := Some 1\<rparr>,
        examplePage\<lparr>timers := [(1, Interval update_timer 1000)], lastHandle := 1\<rparr>)
   \<and> timerTick 1
        (exampleRoom\<lparr>timerInterval := Some 1,
           screenStream := Some [\<lparr>kind = video, enabled = True, ended = False, stopCalls = 0\<rparr>]\<rparr>)
        5000 (examplePage\<lparr>timers := [(1, Interval update_timer 1000)], lastHandle := 1\<rparr>)
     = Inr (examplePage\<lparr>timers := [(1, Interval update_timer 1000)], lastHandle := 1,
              timerText := Some (ascii ''00:00:05'')\<rparr>)
   \<and> leaveMeeting
        (exampleRoom\<lparr>timerInterval := Some 1,
           screenStream := Some [\<lparr>kind = video, enabled = True, ended = False, stopCalls = 0\<rparr>]\<rparr>)
        (examplePage\<lparr>timers := [(1, Interval update_timer 1000)], lastHandle := 1\<rparr>)
     = (exampleRoom\<lparr>timerInterval := Some 1,
          socket := Some [leave_meeting (ascii ''123-456-7890'')],
          localStream := Some [\<lparr>kind = video, enabled = True, ended = True, stopCalls = 1\<rparr>,
                               \<lparr>kind = audio, enabled = True, ended = True, stopCalls = 1\<rparr>],
          screenStream := Some [\<lparr>kind = video, enabled = True, ended = True, stopCalls = 1\<rparr>]\<rparr>,
        examplePage\<lparr>timers := [], lastHandle := 1\<rparr>)
   \<and> timerTick 1
        (fst (leaveMeeting
          (exampleRoom\<lparr>timerInterval := Some 1,
             screenStream := Some [\<lparr>kind = video, enabled = True, ended = False, stopCalls = 0\<rparr>]\<rparr>)
          (examplePage\<lparr>timers := [(1, Interval update_timer 1000)], lastHandle := 1\<rparr>)))
        5000
        (snd (leaveMeeting
          (exampleRoom\<lparr>timerInterval := Some 1,
             screenStream := Some [\<lparr>kind = video, enabled = True, ended = False, stopCalls = 0\<rparr>]\<rparr>)
          (examplePage\<lparr>timers := [(1, Interval update_timer 1000)], lastHandle := 1\<rparr>)))
     = Inr (examplePage\<lparr>timers := [], lastHandle := 1\<rparr>)"
proof -
  let ?room = "exampleRoom\<lparr>timerInterval := Some 1,
     screenStream := Some [\<lparr>kind = video, enabled = True, ended = False, stopCalls = 0\<rparr>]\<rparr>"
  let ?page = "examplePage\<lparr>timers := [(1, Interval update_timer 1000)], lastHandle := 1\<rparr>"
  have 1: "startTimer exampleRoom examplePage = (exampleRoom\<lparr>timerInterval := Some 1\<rparr>, ?page)"
    by (simp add: startTimer_def setInterval_def examplePage_def)
  have f: "floorQuotient 5000 1000 = 5"
    by (simp add: floorQuotient_def roundDiv_def bitlen.simps)
  have 2: "timerTick 1 ?room 5000 ?page = Inr (?page\<lparr>timerText := Some (ascii ''00:00:05'')\<rparr>)"
    by (simp add: timerTick_def timerCallback_def examplePage_def exampleRoom_def f
        formatTime_unfold padStart_def decimal.simps)
  have 3: "leaveMeeting ?room ?page
     = (exampleRoom\<lparr>timerInterval := Some 1,
          socket := Some [leave_meeting (ascii ''123-456-7890'')],
          localStream := Some [\<lparr>kind = video, enabled = True, ended = True, stopCalls = 1\<rparr>,
                               \<lparr>kind = audio, enabled = True, ended = True, stopCalls = 1\<rparr>],
          screenStream := Some [\<lparr>kind = video, enabled = True, ended = True, stopCalls = 1\<rparr>]\<rparr>,
        examplePage\<lparr>timers := [], lastHandle := 1\<rparr>)"
    by (simp add: leaveMeeting_def exampleRoom_def examplePage_def clearInterval_def stop_def)
  have h: "timerInterval ?room = Some 1 \<and> (0::nat) < 1" by simp
  from leaveMeeting_stops_tracks_and_timer [of ?room ?page] h
  have "timerTick 1 (fst (leaveMeeting ?room ?page)) 5000 (snd (leaveMeeting ?room ?page))
        = Inr (snd (leaveMeeting ?room ?page))"
    by blast
  then have 4: "timerTick 1 (fst (leaveMeeting ?room ?page)) 5000 (snd (leaveMeeting ?room ?page))
        = Inr (examplePage\<lparr>timers := [], lastHandle := 1\<rparr>)"
    unfolding 3 fst_conv snd_conv .
  from 1 2 3 4 show ?thesis by (simp only: simp_thms)
qed

subsection \<open>updateParticipantsList\<close>

lemma addOthers_result:
  "participantsList p = Some l \<Longrightarrow> participantVideos p = Some vs \<Longrightarrow>
   addOthers this ps p =
     Inr (p\<lparr>participantsList :=
              Some (l @ map participantDiv (filter (\<lambda>q. pid q \<noteq> userId this) ps)),
            participantVideos :=
              Some (vs @ map videoDiv (filter (\<lambda>q. pid q \<noteq> userId this) ps))\<rparr>)"
proof (induction ps arbitrary: p l vs)
  case Nil
  then show ?case by simp
next
  case (Cons q ps)
  show ?case
  proof (cases "pid q \<noteq> userId this")
    case False
    with Cons show ?thesis by simp
  next
    case True
    let ?p2 = "p\<lparr>participantsList := Some (l @ [participantDiv q]),
                  participantVideos := Some (vs @ [videoDiv q])\<rparr>"
    have "addOthers this (q # ps) p = addOthers this ps ?p2"
      using True Cons.prems by (simp add: addParticipantToList_def addParticipantVideo_def)
    also have "\<dots> = Inr (?p2\<lparr>participantsList :=
              Some ((l @ [participantDiv q])
                    @ map participantDiv (filter (\<lambda>q. pid q \<noteq> userId this) ps)),
            participantVideos :=
              Some ((vs @ [videoDiv q])
                    @ map videoDiv (filter (\<lambda>q. pid q \<noteq> userId this) ps))\<rparr>)"
      by (rule Cons.IH) simp_all
    finally show ?thesis using True by simp
  qed
qed

text \<open>
  What a roster push does when the page has the three elements: the list is rebuilt from
  its first item and the others of the push; the video tiles of the push are appended to
  the tiles that are there, which are never removed.
\<close>

lemma updateParticipantsList_result:
  assumes "participantsList p = Some l" and "participantVideos p = Some vs"
    and "participantCount p = Some c"
  shows "updateParticipantsList this ps p =
     Inr (p\<lparr>participantsList :=
              Some ((case querySelector_participant_item l of None \<Rightarrow> [] | Some e \<Rightarrow> [e])
                    @ map participantDiv (filter (\<lambda>q. pid q \<noteq> userId this) ps)),
            participantVideos :=
              Some (vs @ map videoDiv (filter (\<lambda>q. pid q \<noteq> userId this) ps)),
            participantCount := Some (toString (length ps))\<rparr>)"
proof -
  let ?first = "case querySelector_participant_item l of None \<Rightarrow> [] | Some e \<Rightarrow> [e]"
  let ?p1 = "p\<lparr>participantsList := Some ?first\<rparr>"
  have "addOthers this ps ?p1 =
     Inr (?p1\<lparr>participantsList :=
              Some (?first @ map participantDiv (filter (\<lambda>q. pid q \<noteq> userId this) ps)),
            participantVideos :=
              Some (vs @ map videoDiv (filter (\<lambda>q. pid q \<noteq> userId this) ps))\<rparr>)"
    using assms by (intro addOthers_result) simp_all
  with assms show ?thesis by (simp add: updateParticipantsList_def Let_def)
qed

text \<open>
  C3 says that after a roster push the page shows one list entry and one video tile for
  each of the \<open>N\<close> other participants and no node of before. The list is rebuilt so, but
  \<open>updateParticipantsList\<close> clears the participant list only; \<open>addParticipantVideo\<close> appends
  to a container that nothing empties. On the example page, the push of the local user and
  Alice gives one tile; the same push again gives two tiles for \<open>N = 1\<close>; and the push
  after Alice left (\<open>N = 0\<close>) leaves her tile in place.
\<close>

theorem roster_push_keeps_old_video_tiles:
  "updateParticipantsList exampleRoom [me, alice] examplePage
     = Inr (examplePage\<lparr>participantsList := Some [selfItem, participantDiv alice],
              participantVideos := Some [videoDiv alice],
              participantCount := Some (ascii ''2'')\<rparr>)
   \<and> updateParticipantsList exampleRoom [me, alice]
       (examplePage\<lparr>participantsList := Some [selfItem, participantDiv alice],
          participantVideos := Some [videoDiv alice],
          participantCount := Some (ascii ''2'')\<rparr>)
     = Inr (examplePage\<lparr>participantsList := Some [selfItem, participantDiv alice],
              participantVideos := Some [videoDiv alice, videoDiv alice],
              participantCount := Some (ascii ''2'')\<rparr>)
   \<and> updateParticipantsList exampleRoom [me]
       (examplePage\<lparr>participantsList := Some [selfItem, participantDiv alice],
          participantVideos := Some [videoDiv alice],
          participantCount := Some (ascii ''2'')\<rparr>)
     = Inr (examplePage\<lparr>participantsList := Some [selfItem],
              participantVideos := Some [videoDiv alice],
              participantCount := Some (ascii ''1'')\<rparr>)"
proof -
  have u: "userId exampleRoom = 1" "pid me = 1" "pid alice = 2"
    by (simp_all add: exampleRoom_def me_def alice_def)
  have q: "querySelector_participant_item [selfItem] = Some selfItem"
    "querySelector_participant_item [selfItem, participantDiv alice] = Some selfItem"
    by (simp_all add: querySelector_participant_item_def selfItem_def)
  have n: "toString (Suc (Suc 0)) = ascii ''2''" "toString (Suc 0) = ascii ''1''"
    by (simp_all add: toString_safe decimal.simps)
  have e: "participantsList examplePage = Some [selfItem]"
    "participantVideos examplePage = Some []" "participantCount examplePage = Some (ascii ''1'')"
    by (simp_all add: examplePage_def)
  show ?thesis
    by (simp add: updateParticipantsList_result [where c = "ascii ''1''"]
        updateParticipantsList_result [where c = "ascii ''2''"] u q n e del: ascii_Cons)
qed

end
